theory Spec2Isabelle
  imports Main "HOL-Library.Word" "HOL-Library.Multiset" "HOL-Library.Monad_Syntax"
begin

unbundle bit_operations_syntax

section \<open>Data model\<close>

text \<open>
  A Go \<open>string\<close> is a sequence of bytes; it is modelled by \<open>string\<close>, whose
  characters are bytes, so \<open>length\<close> is Go's \<open>len\<close>.

  A \<open>time.Time\<close> obtained from \<open>os.Stat\<close> is an instant; it is modelled by the
  integer number of nanoseconds since the epoch, and \<open>t.Before(u)\<close> is \<open>t < u\<close>.

  A Go \<open>error\<close> value is an \<open>error\<close> carrying its message.
\<close>

type_synonym time = int

datatype error = Error string

record FileRecord =
  Name :: string
  ModTime :: time
  ArchivePath :: string
  ArchiveName :: string
  Size :: "64 word"

text \<open>
  The part of \<open>zip.FileHeader\<close> that the program reads through \<open>f.Name\<close> and
  \<open>f.FileInfo()\<close>. \<open>attr_dir\<close> says whether the mode that archive/zip derives
  from the creator version and the external attributes has the directory bit.
\<close>

record FileHeader =
  fh_Name :: string
  attr_dir :: bool
  UncompressedSize :: "32 word"
  UncompressedSize64 :: "64 word"

text \<open>
  \<open>f.FileInfo().IsDir()\<close>: archive/zip adds the directory bit to the mode of an entry
  whose name is non-empty and ends in a slash.
\<close>

definition FileInfo_IsDir :: "FileHeader \<Rightarrow> bool" where
  "FileInfo_IsDir f \<longleftrightarrow>
     attr_dir f \<or> (length (fh_Name f) > 0 \<and> fh_Name f ! (length (fh_Name f) - 1) = CHR ''/'')"

text \<open>\<open>f.FileInfo().Size()\<close>, an \<open>int64\<close>.\<close>

definition FileInfo_Size :: "FileHeader \<Rightarrow> 64 word" where
  "FileInfo_Size f =
     (if UncompressedSize64 f > 0 then UncompressedSize64 f else ucast (UncompressedSize f))"

text \<open>
  The world outside the program, as far as the program looks at it:
  \<^item> \<open>os_Stat path\<close> is the modification time of the file at \<open>path\<close>, or an error;
  \<^item> \<open>zip_OpenReader path\<close> is the central directory of the archive at \<open>path\<close>,
    in its order, or an error;
  \<^item> \<open>filepath_Base\<close> is the last element of a path;
  \<^item> \<open>filepath_Walk root\<close> is the sequence of calls that \<open>filepath.Walk\<close> makes to
    its callback as long as the callback returns \<open>nil\<close>: each a path with either the
    error of reaching it or whether it is a directory;
  \<^item> \<open>IsPathSeparator\<close> and \<open>strings_ToLower\<close> are the functions of those names;
  \<^item> \<open>time_Format t\<close> is \<open>t.Format("2006-01-02 15:04:05")\<close> in the local time zone;
  \<^item> \<open>os_Create path\<close> is the error of creating the file at \<open>path\<close>, if any, and
    \<open>WriteString_error n\<close> the error of the \<open>n\<close>-th call of \<open>WriteString\<close> on
    it (counted from 0), if any;
  \<^item> \<open>range_allFiles_order m\<close> and \<open>range_results_order m\<close> are the keys of the map
    \<open>m\<close> in the order in which the \<open>range\<close> loop over it visits them (Go leaves
    the order open).
\<close>

record world =
  os_Stat :: "string \<Rightarrow> error + time"
  zip_OpenReader :: "string \<Rightarrow> error + FileHeader list"
  filepath_Base :: "string \<Rightarrow> string"
  filepath_Walk :: "string \<Rightarrow> (string \<times> (error + bool)) list"
  IsPathSeparator :: "char \<Rightarrow> bool"
  strings_ToLower :: "string \<Rightarrow> string"
  time_Format :: "time \<Rightarrow> string"
  os_Create :: "string \<Rightarrow> error option"
  WriteString_error :: "nat \<Rightarrow> error option"
  range_allFiles_order :: "(string \<rightharpoonup> FileRecord list) \<Rightarrow> string list"
  range_results_order :: "(string \<rightharpoonup> FileRecord) \<Rightarrow> string list"

section \<open>extractFileInfoFromArchive\<close>

text \<open>The \<open>for _, f := range r.File\<close> loop, appending to \<open>files\<close>.\<close>

fun extract_loop :: "world \<Rightarrow> string \<Rightarrow> time \<Rightarrow> FileHeader list \<Rightarrow> FileRecord list \<Rightarrow> FileRecord list" where
  "extract_loop w archivePath archiveInfo [] files = files"
| "extract_loop w archivePath archiveInfo (f # rest) files =
     (if FileInfo_IsDir f then extract_loop w archivePath archiveInfo rest files
      else extract_loop w archivePath archiveInfo rest
        (files @ [\<lparr>Name = fh_Name f,
                   ModTime = archiveInfo,
                   ArchivePath = archivePath,
                   ArchiveName = filepath_Base w archivePath,
                   Size = FileInfo_Size f\<rparr>]))"

definition extractFileInfoFromArchive :: "world \<Rightarrow> string \<Rightarrow> error + FileRecord list" where
  "extractFileInfoFromArchive w archivePath =
     (case os_Stat w archivePath of
        Inl err \<Rightarrow> Inl err
      | Inr archiveInfo \<Rightarrow>
          (case zip_OpenReader w archivePath of
             Inl err \<Rightarrow> Inl err
           | Inr r \<Rightarrow> Inr (extract_loop w archivePath archiveInfo r [])))"

section \<open>sort.Slice\<close>

text \<open>
  \<open>sort.Slice\<close> is not part of the repository. It is modelled after Go's \<open>sort\<close>
  package as of Go 1.19 (pattern-defeating quicksort, \<open>zsortfunc.go\<close>), function by
  function. The slice is a list, an index is an \<open>int\<close> as in Go, and \<open>None\<close> stands
  for a call that does not return normally: an index out of range panics, a loop may
  not end. Go documents the sort as not stable.

  \<open>data.Less(i, j)\<close> and \<open>data.Swap(i, j)\<close> for the slice \<open>data\<close> and the
  comparison \<open>lt\<close> of its elements.
\<close>

definition Less :: "('a \<Rightarrow> 'a \<Rightarrow> bool) \<Rightarrow> 'a list \<Rightarrow> int \<Rightarrow> int \<Rightarrow> bool option" where
  "Less lt data i j =
     (if 0 \<le> i \<and> i < int (length data) \<and> 0 \<le> j \<and> j < int (length data)
      then Some (lt (data ! nat i) (data ! nat j)) else None)"

definition Swap :: "'a list \<Rightarrow> int \<Rightarrow> int \<Rightarrow> 'a list option" where
  "Swap data i j =
     (if 0 \<le> i \<and> i < int (length data) \<and> 0 \<le> j \<and> j < int (length data)
      then Some (data[nat i := data ! nat j, nat j := data ! nat i]) else None)"

text \<open>Go's integer division truncates towards zero.\<close>

definition quo :: "int \<Rightarrow> int \<Rightarrow> int" where
  "quo a b = (if (a < 0) = (b < 0) then \<bar>a\<bar> div \<bar>b\<bar> else - (\<bar>a\<bar> div \<bar>b\<bar>))"

text \<open>\<open>bits.Len\<close>: the number of bits needed to write a number.\<close>

fun bits_Len :: "nat \<Rightarrow> nat" where
  "bits_Len n = (if n = 0 then 0 else Suc (bits_Len (n div 2)))"

declare bits_Len.simps [simp del]

subsection \<open>insertionSort\<close>

text \<open>The inner loop \<open>for j := i; j > a && data.Less(j, j-1); j--\<close>.\<close>

function insertion_shift :: "('a \<Rightarrow> 'a \<Rightarrow> bool) \<Rightarrow> 'a list \<Rightarrow> int \<Rightarrow> int \<Rightarrow> 'a list option" where
  "insertion_shift lt data a j =
     (if j > a then
        do { c \<leftarrow> Less lt data j (j - 1);
             if c then do { data' \<leftarrow> Swap data j (j - 1);
                            insertion_shift lt data' a (j - 1) }
             else Some data }
      else Some data)"
  by pat_completeness auto
termination
  by (relation "measure (\<lambda>(lt, data, a, j). nat (j - a))") auto

declare insertion_shift.simps [simp del]

text \<open>The outer loop \<open>for i := a + 1; i < b; i++\<close>.\<close>

function insertionSort_loop :: "('a \<Rightarrow> 'a \<Rightarrow> bool) \<Rightarrow> 'a list \<Rightarrow> int \<Rightarrow> int \<Rightarrow> int \<Rightarrow> 'a list option" where
  "insertionSort_loop lt data a b i =
     (if i < b then
        do { data' \<leftarrow> insertion_shift lt data a i;
             insertionSort_loop lt data' a b (i + 1) }
      else Some data)"
  by pat_completeness auto
termination
  by (relation "measure (\<lambda>(lt, data, a, b, i). nat (b - i))") auto

declare insertionSort_loop.simps [simp del]

definition insertionSort_func :: "('a \<Rightarrow> 'a \<Rightarrow> bool) \<Rightarrow> 'a list \<Rightarrow> int \<Rightarrow> int \<Rightarrow> 'a list option" where
  "insertionSort_func lt data a b = insertionSort_loop lt data a b (a + 1)"

subsection \<open>heapSort\<close>

partial_function (option) siftDown_func :: "('a \<Rightarrow> 'a \<Rightarrow> bool) \<Rightarrow> 'a list \<Rightarrow> int \<Rightarrow> int \<Rightarrow> int \<Rightarrow> 'a list option" where
  "siftDown_func lt data root hi first =
     (let child = 2 * root + 1 in
      if child \<ge> hi then Some data
      else
        do { c \<leftarrow> (if child + 1 < hi then Less lt data (first + child) (first + child + 1)
                   else Some False);
             let child = (if c then child + 1 else child);
             d \<leftarrow> Less lt data (first + root) (first + child);
             if \<not> d then Some data
             else do { data' \<leftarrow> Swap data (first + root) (first + child);
                       siftDown_func lt data' child hi first } })"

declare siftDown_func.simps [code]

text \<open>\<open>for i := (hi - 1) / 2; i >= 0; i--\<close>: build the heap.\<close>

function heap_build :: "('a \<Rightarrow> 'a \<Rightarrow> bool) \<Rightarrow> 'a list \<Rightarrow> int \<Rightarrow> int \<Rightarrow> int \<Rightarrow> 'a list option" where
  "heap_build lt data i hi first =
     (if i \<ge> 0 then
        do { data' \<leftarrow> siftDown_func lt data i hi first;
             heap_build lt data' (i - 1) hi first }
      else Some data)"
  by pat_completeness auto
termination
  by (relation "measure (\<lambda>(lt, data, i, hi, first). nat (i + 1))") auto

declare heap_build.simps [simp del]

text \<open>\<open>for i := hi - 1; i >= 0; i--\<close>: pop the largest element to the end.\<close>

function heap_pop :: "('a \<Rightarrow> 'a \<Rightarrow> bool) \<Rightarrow> 'a list \<Rightarrow> int \<Rightarrow> int \<Rightarrow> int \<Rightarrow> 'a list option" where
  "heap_pop lt data i lo first =
     (if i \<ge> 0 then
        do { data' \<leftarrow> Swap data first (first + i);
             data'' \<leftarrow> siftDown_func lt data' lo i first;
             heap_pop lt data'' (i - 1) lo first }
      else Some data)"
  by pat_completeness auto
termination
  by (relation "measure (\<lambda>(lt, data, i, lo, first). nat (i + 1))") auto

declare heap_pop.simps [simp del]

definition heapSort_func :: "('a \<Rightarrow> 'a \<Rightarrow> bool) \<Rightarrow> 'a list \<Rightarrow> int \<Rightarrow> int \<Rightarrow> 'a list option" where
  "heapSort_func lt data a b =
     (let first = a; lo = 0; hi = b - a in
      do { data' \<leftarrow> heap_build lt data (quo (hi - 1) 2) hi first;
           heap_pop lt data' (hi - 1) lo first })"

subsection \<open>breakPatterns\<close>

definition xorshift_Next :: "64 word \<Rightarrow> 64 word" where
  "xorshift_Next r =
     (let r1 = r XOR push_bit 13 r;
          r2 = r1 XOR drop_bit 7 r1
      in r2 XOR push_bit 17 r2)"

definition nextPowerOfTwo :: "int \<Rightarrow> 64 word" where
  "nextPowerOfTwo length' = push_bit (bits_Len (unat (word_of_int length' :: 64 word))) 1"

function breakPatterns_loop :: "'a list \<Rightarrow> int \<Rightarrow> int \<Rightarrow> 64 word \<Rightarrow> 64 word \<Rightarrow> int \<Rightarrow> int \<Rightarrow> 'a list option" where
  "breakPatterns_loop data a length' random modulus idx i =
     (if i < 3 then
        (let random' = xorshift_Next random;
             other = sint (random' AND (modulus - 1));
             other = (if other \<ge> length' then other - length' else other)
         in do { data' \<leftarrow> Swap data (idx - 1 + i) (a + other);
                 breakPatterns_loop data' a length' random' modulus idx (i + 1) })
      else Some data)"
  by pat_completeness auto
termination
  by (relation "measure (\<lambda>(data, a, length', random, modulus, idx, i). nat (3 - i))") auto

declare breakPatterns_loop.simps [simp del]

definition breakPatterns_func :: "'a list \<Rightarrow> int \<Rightarrow> int \<Rightarrow> 'a list option" where
  "breakPatterns_func data a b =
     (let length' = b - a in
      if length' \<ge> 8 then
        (let random = (word_of_int length' :: 64 word);
             modulus = nextPowerOfTwo length';
             idx = a + quo length' 4 * 2 - 1
         in breakPatterns_loop data a length' random modulus idx 0)
      else Some data)"

subsection \<open>choosePivot\<close>

datatype sortedHint = unknownHint | increasingHint | decreasingHint

definition order2_func :: "('a \<Rightarrow> 'a \<Rightarrow> bool) \<Rightarrow> 'a list \<Rightarrow> int \<Rightarrow> int \<Rightarrow> int \<Rightarrow> (int \<times> int \<times> int) option" where
  "order2_func lt data a b swaps =
     do { c \<leftarrow> Less lt data b a;
          if c then Some (b, a, swaps + 1) else Some (a, b, swaps) }"

definition median_func :: "('a \<Rightarrow> 'a \<Rightarrow> bool) \<Rightarrow> 'a list \<Rightarrow> int \<Rightarrow> int \<Rightarrow> int \<Rightarrow> int \<Rightarrow> (int \<times> int) option" where
  "median_func lt data a b c swaps =
     do { (a, b, swaps) \<leftarrow> order2_func lt data a b swaps;
          (b, c, swaps) \<leftarrow> order2_func lt data b c swaps;
          (a, b, swaps) \<leftarrow> order2_func lt data a b swaps;
          Some (b, swaps) }"

definition medianAdjacent_func :: "('a \<Rightarrow> 'a \<Rightarrow> bool) \<Rightarrow> 'a list \<Rightarrow> int \<Rightarrow> int \<Rightarrow> (int \<times> int) option" where
  "medianAdjacent_func lt data a swaps = median_func lt data (a - 1) a (a + 1) swaps"

definition choosePivot_func :: "('a \<Rightarrow> 'a \<Rightarrow> bool) \<Rightarrow> 'a list \<Rightarrow> int \<Rightarrow> int \<Rightarrow> (int \<times> sortedHint) option" where
  "choosePivot_func lt data a b =
     (let l = b - a;
          i = a + quo l 4 * 1;
          j = a + quo l 4 * 2;
          k = a + quo l 4 * 3
      in do {
        (j, swaps) \<leftarrow>
          (if l \<ge> 8 then
             do { (i, j, k, swaps) \<leftarrow>
                    (if l \<ge> 50 then
                       do { (i, swaps) \<leftarrow> medianAdjacent_func lt data i 0;
                            (j, swaps) \<leftarrow> medianAdjacent_func lt data j swaps;
                            (k, swaps) \<leftarrow> medianAdjacent_func lt data k swaps;
                            Some (i, j, k, swaps) }
                     else Some (i, j, k, 0));
                  median_func lt data i j k swaps }
           else Some (j, 0));
        Some (j, if swaps = 0 then increasingHint
                 else if swaps = 4 * 3 then decreasingHint
                 else unknownHint) })"

subsection \<open>reverseRange\<close>

function reverseRange_loop :: "'a list \<Rightarrow> int \<Rightarrow> int \<Rightarrow> 'a list option" where
  "reverseRange_loop data i j =
     (if i < j then
        do { data' \<leftarrow> Swap data i j;
             reverseRange_loop data' (i + 1) (j - 1) }
      else Some data)"
  by pat_completeness auto
termination
  by (relation "measure (\<lambda>(data, i, j). nat (j - i))") auto

declare reverseRange_loop.simps [simp del]

definition reverseRange_func :: "'a list \<Rightarrow> int \<Rightarrow> int \<Rightarrow> 'a list option" where
  "reverseRange_func data a b = reverseRange_loop data a (b - 1)"

subsection \<open>partialInsertionSort\<close>

text \<open>\<open>for i < b && !data.Less(i, i-1) { i++ }\<close>\<close>

function pis_scan :: "('a \<Rightarrow> 'a \<Rightarrow> bool) \<Rightarrow> 'a list \<Rightarrow> int \<Rightarrow> int \<Rightarrow> int option" where
  "pis_scan lt data b i =
     (if i < b then
        do { c \<leftarrow> Less lt data i (i - 1);
             if \<not> c then pis_scan lt data b (i + 1) else Some i }
      else Some i)"
  by pat_completeness auto
termination
  by (relation "measure (\<lambda>(lt, data, b, i). nat (b - i))") auto

declare pis_scan.simps [simp del]

text \<open>Shift the smaller one to the left: \<open>for j := i - 1; j >= 1; j--\<close>.\<close>

function pis_shift_left :: "('a \<Rightarrow> 'a \<Rightarrow> bool) \<Rightarrow> 'a list \<Rightarrow> int \<Rightarrow> 'a list option" where
  "pis_shift_left lt data j =
     (if j \<ge> 1 then
        do { c \<leftarrow> Less lt data j (j - 1);
             if \<not> c then Some data
             else do { data' \<leftarrow> Swap data j (j - 1);
                       pis_shift_left lt data' (j - 1) } }
      else Some data)"
  by pat_completeness auto
termination
  by (relation "measure (\<lambda>(lt, data, j). nat j)") auto

declare pis_shift_left.simps [simp del]

text \<open>Shift the greater one to the right: \<open>for j := i + 1; j < b; j++\<close>.\<close>

function pis_shift_right :: "('a \<Rightarrow> 'a \<Rightarrow> bool) \<Rightarrow> 'a list \<Rightarrow> int \<Rightarrow> int \<Rightarrow> 'a list option" where
  "pis_shift_right lt data b j =
     (if j < b then
        do { c \<leftarrow> Less lt data j (j - 1);
             if \<not> c then Some data
             else do { data' \<leftarrow> Swap data j (j - 1);
                       pis_shift_right lt data' b (j + 1) } }
      else Some data)"
  by pat_completeness auto
termination
  by (relation "measure (\<lambda>(lt, data, b, j). nat (b - j))") auto

declare pis_shift_right.simps [simp del]

text \<open>
  The loop \<open>for j := 0; j < maxSteps; j++\<close> with \<open>maxSteps = 5\<close> and
  \<open>shortestShifting = 50\<close>; the result says whether the range is sorted at the end.
\<close>

function pis_steps :: "('a \<Rightarrow> 'a \<Rightarrow> bool) \<Rightarrow> 'a list \<Rightarrow> int \<Rightarrow> int \<Rightarrow> int \<Rightarrow> int \<Rightarrow> ('a list \<times> bool) option" where
  "pis_steps lt data a b i j =
     (if j < 5 then
        do { i' \<leftarrow> pis_scan lt data b i;
             if i' = b then Some (data, True)
             else if b - a < 50 then Some (data, False)
             else
               do { data1 \<leftarrow> Swap data i' (i' - 1);
                    data2 \<leftarrow> (if i' - a \<ge> 2 then pis_shift_left lt data1 (i' - 1) else Some data1);
                    data3 \<leftarrow> (if b - i' \<ge> 2 then pis_shift_right lt data2 b (i' + 1) else Some data2);
                    pis_steps lt data3 a b i' (j + 1) } }
      else Some (data, False))"
  by pat_completeness auto
termination
  by (relation "measure (\<lambda>(lt, data, a, b, i, j). nat (5 - j))") auto

declare pis_steps.simps [simp del]

definition partialInsertionSort_func :: "('a \<Rightarrow> 'a \<Rightarrow> bool) \<Rightarrow> 'a list \<Rightarrow> int \<Rightarrow> int \<Rightarrow> ('a list \<times> bool) option" where
  "partialInsertionSort_func lt data a b = pis_steps lt data a b (a + 1) 0"

subsection \<open>partitionEqual and partition\<close>

text \<open>
  \<open>for i <= j && !data.Less(a, i) { i++ }\<close> and \<open>for i <= j && data.Less(a, j) { j-- }\<close>
\<close>

function pe_scan_i :: "('a \<Rightarrow> 'a \<Rightarrow> bool) \<Rightarrow> 'a list \<Rightarrow> int \<Rightarrow> int \<Rightarrow> int \<Rightarrow> int option" where
  "pe_scan_i lt data a i j =
     (if i \<le> j then
        do { c \<leftarrow> Less lt data a i;
             if \<not> c then pe_scan_i lt data a (i + 1) j else Some i }
      else Some i)"
  by pat_completeness auto
termination
  by (relation "measure (\<lambda>(lt, data, a, i, j). nat (j + 1 - i))") auto

declare pe_scan_i.simps [simp del]

function pe_scan_j :: "('a \<Rightarrow> 'a \<Rightarrow> bool) \<Rightarrow> 'a list \<Rightarrow> int \<Rightarrow> int \<Rightarrow> int \<Rightarrow> int option" where
  "pe_scan_j lt data a i j =
     (if i \<le> j then
        do { c \<leftarrow> Less lt data a j;
             if c then pe_scan_j lt data a i (j - 1) else Some j }
      else Some j)"
  by pat_completeness auto
termination
  by (relation "measure (\<lambda>(lt, data, a, i, j). nat (j + 1 - i))") auto

declare pe_scan_j.simps [simp del]

partial_function (option) partitionEqual_loop :: "('a \<Rightarrow> 'a \<Rightarrow> bool) \<Rightarrow> 'a list \<Rightarrow> int \<Rightarrow> int \<Rightarrow> int \<Rightarrow> ('a list \<times> int) option" where
  "partitionEqual_loop lt data a i j =
     do { i' \<leftarrow> pe_scan_i lt data a i j;
          j' \<leftarrow> pe_scan_j lt data a i' j;
          if i' > j' then Some (data, i')
          else do { data' \<leftarrow> Swap data i' j';
                    partitionEqual_loop lt data' a (i' + 1) (j' - 1) } }"

declare partitionEqual_loop.simps [code]

definition partitionEqual_func :: "('a \<Rightarrow> 'a \<Rightarrow> bool) \<Rightarrow> 'a list \<Rightarrow> int \<Rightarrow> int \<Rightarrow> int \<Rightarrow> ('a list \<times> int) option" where
  "partitionEqual_func lt data a b pivot =
     do { data' \<leftarrow> Swap data a pivot;
          partitionEqual_loop lt data' a (a + 1) (b - 1) }"

text \<open>\<open>for i <= j && data.Less(i, a) { i++ }\<close> and \<open>for i <= j && !data.Less(j, a) { j-- }\<close>\<close>

function p_scan_i :: "('a \<Rightarrow> 'a \<Rightarrow> bool) \<Rightarrow> 'a list \<Rightarrow> int \<Rightarrow> int \<Rightarrow> int \<Rightarrow> int option" where
  "p_scan_i lt data a i j =
     (if i \<le> j then
        do { c \<leftarrow> Less lt data i a;
             if c then p_scan_i lt data a (i + 1) j else Some i }
      else Some i)"
  by pat_completeness auto
termination
  by (relation "measure (\<lambda>(lt, data, a, i, j). nat (j + 1 - i))") auto

declare p_scan_i.simps [simp del]

function p_scan_j :: "('a \<Rightarrow> 'a \<Rightarrow> bool) \<Rightarrow> 'a list \<Rightarrow> int \<Rightarrow> int \<Rightarrow> int \<Rightarrow> int option" where
  "p_scan_j lt data a i j =
     (if i \<le> j then
        do { c \<leftarrow> Less lt data j a;
             if \<not> c then p_scan_j lt data a i (j - 1) else Some j }
      else Some j)"
  by pat_completeness auto
termination
  by (relation "measure (\<lambda>(lt, data, a, i, j). nat (j + 1 - i))") auto

declare p_scan_j.simps [simp del]

partial_function (option) partition_loop :: "('a \<Rightarrow> 'a \<Rightarrow> bool) \<Rightarrow> 'a list \<Rightarrow> int \<Rightarrow> int \<Rightarrow> int \<Rightarrow> ('a list \<times> int) option" where
  "partition_loop lt data a i j =
     do { i' \<leftarrow> p_scan_i lt data a i j;
          j' \<leftarrow> p_scan_j lt data a i' j;
          if i' > j' then Some (data, j')
          else do { data' \<leftarrow> Swap data i' j';
                    partition_loop lt data' a (i' + 1) (j' - 1) } }"

declare partition_loop.simps [code]

definition partition_func :: "('a \<Rightarrow> 'a \<Rightarrow> bool) \<Rightarrow> 'a list \<Rightarrow> int \<Rightarrow> int \<Rightarrow> int \<Rightarrow> ('a list \<times> int \<times> bool) option" where
  "partition_func lt data a b pivot =
     do { data1 \<leftarrow> Swap data a pivot;
          i \<leftarrow> p_scan_i lt data1 a (a + 1) (b - 1);
          j \<leftarrow> p_scan_j lt data1 a i (b - 1);
          if i > j then
            do { data2 \<leftarrow> Swap data1 j a;
                 Some (data2, j, True) }
          else
            do { data2 \<leftarrow> Swap data1 i j;
                 (data3, j') \<leftarrow> partition_loop lt data2 a (i + 1) (j - 1);
                 data4 \<leftarrow> Swap data3 j' a;
                 Some (data4, j', False) } }"

subsection \<open>pdqsort and sort.Slice\<close>

text \<open>
  \<open>pdqsort_func\<close> sorts \<open>data[a:b]\<close>. Its loop is the recursion on the same range
  with the loop's variables \<open>wasBalanced\<close> and \<open>wasPartitioned\<close> as arguments; the
  call on the smaller part starts with both true. \<open>maxInsertion\<close> is 12.
\<close>

partial_function (option) pdqsort_func :: "('a \<Rightarrow> 'a \<Rightarrow> bool) \<Rightarrow> 'a list \<Rightarrow> int \<Rightarrow> int \<Rightarrow> int \<Rightarrow> bool \<Rightarrow> bool \<Rightarrow> 'a list option" where
  "pdqsort_func lt data a b limit wasBalanced wasPartitioned =
     (let length' = b - a in
      if length' \<le> 12 then insertionSort_func lt data a b
      else if limit = 0 then heapSort_func lt data a b
      else
        do { (data1, limit1) \<leftarrow>
               (if \<not> wasBalanced then
                  do { d \<leftarrow> breakPatterns_func data a b; Some (d, limit - 1) }
                else Some (data, limit));
             (pivot, hint) \<leftarrow> choosePivot_func lt data1 a b;
             (data2, pivot2, hint2) \<leftarrow>
               (if hint = decreasingHint then
                  do { d \<leftarrow> reverseRange_func data1 a b;
                       Some (d, (b - 1) - (pivot - a), increasingHint) }
                else Some (data1, pivot, hint));
             (data3, sorted') \<leftarrow>
               (if wasBalanced \<and> wasPartitioned \<and> hint2 = increasingHint
                then partialInsertionSort_func lt data2 a b
                else Some (data2, False));
             if sorted' then Some data3
             else
               do { dup \<leftarrow> (if a > 0 then do { c \<leftarrow> Less lt data3 (a - 1) pivot2; Some (\<not> c) }
                            else Some False);
                    if dup then
                      do { (data4, mid) \<leftarrow> partitionEqual_func lt data3 a b pivot2;
                           pdqsort_func lt data4 mid b limit1 wasBalanced wasPartitioned }
                    else
                      do { (data4, mid, alreadyPartitioned) \<leftarrow> partition_func lt data3 a b pivot2;
                           let leftLen = mid - a;
                               rightLen = b - mid;
                               balanceThreshold = quo length' 8
                           in if leftLen < rightLen then
                                do { data5 \<leftarrow> pdqsort_func lt data4 a mid limit1 True True;
                                     pdqsort_func lt data5 (mid + 1) b limit1
                                       (leftLen \<ge> balanceThreshold) alreadyPartitioned }
                              else
                                do { data5 \<leftarrow> pdqsort_func lt data4 (mid + 1) b limit1 True True;
                                     pdqsort_func lt data5 a mid limit1
                                       (rightLen \<ge> balanceThreshold) alreadyPartitioned } } } })"

declare pdqsort_func.simps [code]

text \<open>\<open>sort.Slice(x, less)\<close>, where \<open>lt\<close> compares the elements that \<open>less\<close> is given by index.\<close>

definition sort_Slice :: "('a \<Rightarrow> 'a \<Rightarrow> bool) \<Rightarrow> 'a list \<Rightarrow> 'a list option" where
  "sort_Slice lt x =
     (let length' = int (length x);
          limit = int (bits_Len (length x))
      in pdqsort_func lt x 0 length' limit True True)"

section \<open>determineLatestReleases\<close>

text \<open>
  The comparison given to \<open>sort.Slice\<close>:
  \<open>versions[i].ModTime.Before(versions[j].ModTime)\<close>.
\<close>

definition versions_less :: "FileRecord \<Rightarrow> FileRecord \<Rightarrow> bool" where
  "versions_less x y \<longleftrightarrow> ModTime x < ModTime y"

type_synonym sorter = "(FileRecord \<Rightarrow> FileRecord \<Rightarrow> bool) \<Rightarrow> FileRecord list \<Rightarrow> FileRecord list option"

text \<open>
  The loop \<open>for filename, versions := range allFiles\<close>. \<open>keys\<close> are the keys of
  \<open>allFiles\<close> in the order of the visit, \<open>srt\<close> is \<open>sort.Slice\<close>. The sort works
  in place, on the array that the map's slice points to, so the loop changes
  \<open>allFiles\<close> as well as \<open>latest\<close>; both are returned.
\<close>

fun range_allFiles :: "sorter \<Rightarrow> string list \<Rightarrow> (string \<rightharpoonup> FileRecord list) \<Rightarrow> (string \<rightharpoonup> FileRecord)
    \<Rightarrow> ((string \<rightharpoonup> FileRecord list) \<times> (string \<rightharpoonup> FileRecord)) option" where
  "range_allFiles srt [] allFiles latest = Some (allFiles, latest)"
| "range_allFiles srt (filename # keys) allFiles latest =
     (case allFiles filename of
        None \<Rightarrow> range_allFiles srt keys allFiles latest
      | Some versions \<Rightarrow>
          if length versions = 0 then range_allFiles srt keys allFiles latest
          else
            do { versions' \<leftarrow> srt versions_less versions;
                 range_allFiles srt keys (allFiles(filename \<mapsto> versions'))
                   (latest(filename \<mapsto> versions' ! (length versions - 1))) })"

definition determineLatestReleases :: "sorter \<Rightarrow> string list \<Rightarrow> (string \<rightharpoonup> FileRecord list)
    \<Rightarrow> ((string \<rightharpoonup> FileRecord) \<times> (string \<rightharpoonup> FileRecord list)) option" where
  "determineLatestReleases srt keys allFiles =
     do { (allFiles', latest) \<leftarrow> range_allFiles srt keys allFiles Map.empty;
          Some (latest, allFiles') }"

text \<open>
  What \<open>sort.Slice\<close> promises for one slice: it returns, and the slice then holds the
  same elements in an order in which no element is less than one before it.
\<close>

definition sorts_versions :: "sorter \<Rightarrow> FileRecord list \<Rightarrow> bool" where
  "sorts_versions srt vs \<longleftrightarrow>
     (\<exists>ys. srt versions_less vs = Some ys \<and> mset ys = mset vs
        \<and> sorted_wrt (\<lambda>x y. \<not> versions_less y x) ys)"

section \<open>writeResultsToFile\<close>

subsection \<open>fmt.Sprintf\<close>

text \<open>
  The width of \<open>%-50s\<close> counts runes: fmt pads with
  \<open>width - utf8.RuneCountInString(s)\<close> spaces. \<open>first\<close> and \<open>acceptRanges\<close> are
  the tables of Go's \<open>unicode/utf8\<close>; a byte that starts no valid encoding counts as
  one rune.
\<close>

definition first :: "nat \<Rightarrow> nat" where
  "first c =
     (if c < 0x80 then 0xF0
      else if c < 0xC2 then 0xF1
      else if c < 0xE0 then 0x02
      else if c = 0xE0 then 0x13
      else if c < 0xED then 0x03
      else if c = 0xED then 0x23
      else if c < 0xF0 then 0x03
      else if c = 0xF0 then 0x34
      else if c < 0xF4 then 0x04
      else if c = 0xF4 then 0x44
      else 0xF1)"

definition acceptRanges :: "nat \<Rightarrow> nat \<times> nat" where
  "acceptRanges n =
     (if n = 0 then (0x80, 0xBF)
      else if n = 1 then (0xA0, 0xBF)
      else if n = 2 then (0x80, 0x9F)
      else if n = 3 then (0x90, 0xBF)
      else if n = 4 then (0x80, 0x8F)
      else (0, 0))"

definition byte_at :: "string \<Rightarrow> nat \<Rightarrow> nat" where
  "byte_at s i = of_char (s ! i)"

text \<open>The number of bytes by which \<open>RuneCountInString\<close> moves on from index \<open>i\<close>.\<close>

definition rune_step :: "string \<Rightarrow> nat \<Rightarrow> nat" where
  "rune_step s i =
     (let ns = length s; c = byte_at s i in
      if c < 0x80 then 1
      else
        let x = first c in
        if x = 0xF1 then 1
        else
          let size' = x mod 8 in
          if i + size' > ns then 1
          else
            let (lo, hi) = acceptRanges (x div 16) in
            if byte_at s (i + 1) < lo \<or> hi < byte_at s (i + 1) then 1
            else if size' = 2 then 2
            else if byte_at s (i + 2) < 0x80 \<or> 0xBF < byte_at s (i + 2) then 1
            else if size' = 3 then 3
            else if byte_at s (i + 3) < 0x80 \<or> 0xBF < byte_at s (i + 3) then 1
            else size')"

lemma rune_step_pos: "0 < rune_step s i"
  by (auto simp: rune_step_def first_def Let_def split: prod.splits)

function RuneCount_loop :: "string \<Rightarrow> nat \<Rightarrow> nat \<Rightarrow> nat" where
  "RuneCount_loop s i n =
     (if i < length s then RuneCount_loop s (i + rune_step s i) (n + 1) else n)"
  by pat_completeness auto
termination
proof (relation "measure (\<lambda>(s, i, n). length s - i)")
  fix s :: string and i n :: nat
  assume "i < length s"
  then show "((s, i + rune_step s i, n + 1), (s, i, n)) \<in> measure (\<lambda>(s, i, n). length s - i)"
    using rune_step_pos [of s i] by simp
qed simp

declare RuneCount_loop.simps [simp del]

definition RuneCountInString :: "string \<Rightarrow> nat" where
  "RuneCountInString s = RuneCount_loop s 0 0"

text \<open>\<open>%-Ns\<close>: the string, then the padding.\<close>

definition pad_right :: "nat \<Rightarrow> string \<Rightarrow> string" where
  "pad_right wid s = s @ replicate (wid - RuneCountInString s) CHR '' ''"

text \<open>\<open>%d\<close> of an \<open>int64\<close>.\<close>

function digits :: "nat \<Rightarrow> string" where
  "digits n = (if n < 10 then [char_of (48 + n)] else digits (n div 10) @ [char_of (48 + n mod 10)])"
  by pat_completeness auto
termination
  by (relation "measure id") auto

declare digits.simps [simp del]

definition fmt_d :: "64 word \<Rightarrow> string" where
  "fmt_d i = (if sint i < 0 then CHR ''-'' # digits (nat (- sint i)) else digits (nat (sint i)))"

subsection \<open>The report\<close>

text \<open>
  \<open>s[:maxLen-3]\<close> panics when \<open>maxLen - 3\<close> is negative (it cannot exceed the length
  of \<open>s\<close> in the branch that takes it); \<open>None\<close> is the panic.
\<close>

definition truncateString :: "string \<Rightarrow> int \<Rightarrow> string option" where
  "truncateString s maxLen =
     (if int (length s) \<le> maxLen then Some s
      else if maxLen - 3 < 0 then None
      else Some (take (nat (maxLen - 3)) s @ ''...''))"

text \<open>
  The four titles of the header, which the source writes in Russian; here as their
  UTF-8 bytes: "File" (4 letters), "Release date" (two words, 11 characters),
  "Size" (6 letters), "Archive" (5 letters).
\<close>

definition title_Name :: string where
  "title_Name =
    [CHR 0xD0, CHR 0xA4, CHR 0xD0, CHR 0xB0, CHR 0xD0, CHR 0xB9, CHR 0xD0, CHR 0xBB]"

definition title_Date :: string where
  "title_Date =
    [CHR 0xD0, CHR 0x94, CHR 0xD0, CHR 0xB0, CHR 0xD1, CHR 0x82, CHR 0xD0, CHR 0xB0,
     CHR 0x20, CHR 0xD1, CHR 0x80, CHR 0xD0, CHR 0xB5, CHR 0xD0, CHR 0xBB, CHR 0xD0,
     CHR 0xB8, CHR 0xD0, CHR 0xB7, CHR 0xD0, CHR 0xB0]"

definition title_Size :: string where
  "title_Size =
    [CHR 0xD0, CHR 0xA0, CHR 0xD0, CHR 0xB0, CHR 0xD0, CHR 0xB7, CHR 0xD0, CHR 0xBC,
     CHR 0xD0, CHR 0xB5, CHR 0xD1, CHR 0x80]"

definition title_Archive :: string where
  "title_Archive =
    [CHR 0xD0, CHR 0x90, CHR 0xD1, CHR 0x80, CHR 0xD1, CHR 0x85, CHR 0xD0, CHR 0xB8,
     CHR 0xD0, CHR 0xB2]"

definition newline :: string where
  "newline = [CHR 0x0A]"

text \<open>\<open>header := fmt.Sprintf("%-50s %-20s %-10s %s\n", ...)\<close>\<close>

definition header :: string where
  "header = pad_right 50 title_Name @ '' '' @ pad_right 20 title_Date @ '' ''
     @ pad_right 10 title_Size @ '' '' @ title_Archive @ newline"

text \<open>\<open>divider := strings.Repeat("-", len(header)) + "\n"\<close>\<close>

definition divider :: string where
  "divider = replicate (length header) CHR ''-'' @ newline"

text \<open>The name field of a row: \<open>%-50s\<close> of \<open>truncateString(record.Name, 50)\<close>.\<close>

definition name_field :: "string \<Rightarrow> string option" where
  "name_field name = map_option (pad_right 50) (truncateString name 50)"

text \<open>\<open>line := fmt.Sprintf("%-50s %-20s %-10d %s\n", ...)\<close>\<close>

definition line :: "world \<Rightarrow> FileRecord \<Rightarrow> string option" where
  "line w record =
     do { field \<leftarrow> name_field (Name record);
          Some (field @ '' '' @ pad_right 20 (time_Format w (ModTime record)) @ '' ''
            @ pad_right 10 (fmt_d (Size record)) @ '' '' @ ArchiveName record @ newline) }"

text \<open>
  The state of the output file: what has been written to it, and how many calls of
  \<open>WriteString\<close> there have been. A call that fails writes nothing.
\<close>

record out_file =
  written :: string
  calls :: nat

definition WriteString :: "world \<Rightarrow> out_file \<Rightarrow> string \<Rightarrow> out_file \<times> error option" where
  "WriteString w file s =
     (case WriteString_error w (calls file) of
        Some err \<Rightarrow> (file\<lparr>calls := calls file + 1\<rparr>, Some err)
      | None \<Rightarrow> (\<lparr>written = written file @ s, calls = calls file + 1\<rparr>, None))"

text \<open>
  The loop \<open>for _, record := range results\<close> over the keys in the order of the visit.
  The result is the file and the error returned, if any; \<open>None\<close> is a panic.
\<close>

fun range_results :: "world \<Rightarrow> (string \<rightharpoonup> FileRecord) \<Rightarrow> string list \<Rightarrow> out_file \<Rightarrow> (out_file \<times> error option) option" where
  "range_results w results [] file = Some (file, None)"
| "range_results w results (k # keys) file =
     (case results k of
        None \<Rightarrow> range_results w results keys file
      | Some record \<Rightarrow>
          do { l \<leftarrow> line w record;
               (case WriteString w file l of
                  (file', Some err) \<Rightarrow> Some (file', Some err)
                | (file', None) \<Rightarrow> range_results w results keys file') })"

text \<open>
  \<open>writeResultsToFile\<close>: the file it leaves (\<open>None\<close> when it was not created) and the
  error it returns, if any.
\<close>

definition writeResultsToFile :: "world \<Rightarrow> string \<Rightarrow> (string \<rightharpoonup> FileRecord) \<Rightarrow> (out_file option \<times> error option) option" where
  "writeResultsToFile w filename results =
     (case os_Create w filename of
        Some err \<Rightarrow> Some (None, Some err)
      | None \<Rightarrow>
          (case WriteString w \<lparr>written = [], calls = 0\<rparr> header of
             (file1, Some err) \<Rightarrow> Some (Some file1, Some err)
           | (file1, None) \<Rightarrow>
               (case WriteString w file1 divider of
                  (file2, Some err) \<Rightarrow> Some (Some file2, Some err)
                | (file2, None) \<Rightarrow>
                    map_option (\<lambda>(file3, err). (Some file3, err))
                      (range_results w results (range_results_order w results) file2))))"

section \<open>findArchiveFiles\<close>

text \<open>
  \<open>filepath.Ext\<close>: the loop
  \<open>for i := len(path) - 1; i >= 0 && !os.IsPathSeparator(path[i]); i--\<close>,
  with \<open>Suc i\<close> counting down to 0.
\<close>

fun Ext_loop :: "world \<Rightarrow> string \<Rightarrow> nat \<Rightarrow> string" where
  "Ext_loop w path 0 = []"
| "Ext_loop w path (Suc i) =
     (if IsPathSeparator w (path ! i) then []
      else if path ! i = CHR ''.'' then drop i path
      else Ext_loop w path i)"

definition filepath_Ext :: "world \<Rightarrow> string \<Rightarrow> string" where
  "filepath_Ext w path = Ext_loop w path (length path)"

definition isArchiveFile :: "world \<Rightarrow> string \<Rightarrow> bool" where
  "isArchiveFile w filename \<longleftrightarrow> strings_ToLower w (filepath_Ext w filename) = ''.zip''"

text \<open>The callback of \<open>filepath.Walk\<close>, call after call; an error ends the walk.\<close>

fun walk_loop :: "world \<Rightarrow> (string \<times> (error + bool)) list \<Rightarrow> string list \<Rightarrow> error + string list" where
  "walk_loop w [] archives = Inr archives"
| "walk_loop w ((path, info) # rest) archives =
     (case info of
        Inl err \<Rightarrow> Inl err
      | Inr isDir \<Rightarrow>
          if \<not> isDir \<and> isArchiveFile w path then walk_loop w rest (archives @ [path])
          else walk_loop w rest archives)"

definition findArchiveFiles :: "world \<Rightarrow> string \<Rightarrow> error + string list" where
  "findArchiveFiles w dir = walk_loop w (filepath_Walk w dir) []"

section \<open>main\<close>

text \<open>
  What a run prints and logs, in order. \<open>log.Fatal\<close> ends the run with exit status 1.
\<close>

datatype event =
    Printf_searching string
  | Printf_found nat
  | Log_archive_error string error
  | Printf_saved string
  | Printf_processed nat
  | Fatal_search error
  | Fatal_no_archives
  | Fatal_write error

record run =
  events :: "event list"
  output_file :: "out_file option"
  exit_status :: nat

text \<open>\<open>allFiles[file.Name] = append(allFiles[file.Name], file)\<close> for the files of one archive.\<close>

fun append_files :: "FileRecord list \<Rightarrow> (string \<rightharpoonup> FileRecord list) \<Rightarrow> (string \<rightharpoonup> FileRecord list)" where
  "append_files [] allFiles = allFiles"
| "append_files (file # files) allFiles =
     append_files files
       (allFiles(Name file \<mapsto> (case allFiles (Name file) of None \<Rightarrow> [] | Some vs \<Rightarrow> vs) @ [file]))"

text \<open>The loop \<open>for _, archivePath := range archives\<close>.\<close>

fun range_archives :: "world \<Rightarrow> string list \<Rightarrow> (string \<rightharpoonup> FileRecord list) \<Rightarrow> event list
    \<Rightarrow> (string \<rightharpoonup> FileRecord list) \<times> event list" where
  "range_archives w [] allFiles evs = (allFiles, evs)"
| "range_archives w (archivePath # rest) allFiles evs =
     (case extractFileInfoFromArchive w archivePath of
        Inl err \<Rightarrow> range_archives w rest allFiles (evs @ [Log_archive_error archivePath err])
      | Inr files \<Rightarrow> range_archives w rest (append_files files allFiles) evs)"

text \<open>The run; \<open>None\<close> is a panic.\<close>

definition main :: "world \<Rightarrow> run option" where
  "main w =
     (let archiveDir = ''X:/NETDBS'';
          outputFile = ''./latest_releases.txt'';
          evs0 = [Printf_searching archiveDir]
      in case findArchiveFiles w archiveDir of
           Inl err \<Rightarrow> Some \<lparr>events = evs0 @ [Fatal_search err], output_file = None, exit_status = 1\<rparr>
         | Inr archives \<Rightarrow>
             if length archives = 0
             then Some \<lparr>events = evs0 @ [Fatal_no_archives], output_file = None, exit_status = 1\<rparr>
             else
               let evs1 = evs0 @ [Printf_found (length archives)];
                   (allFiles, evs2) = range_archives w archives Map.empty evs1
               in do {
                 (latestReleases, allFiles') \<leftarrow>
                   determineLatestReleases sort_Slice (range_allFiles_order w allFiles) allFiles;
                 (file, err) \<leftarrow> writeResultsToFile w outputFile latestReleases;
                 (case err of
                    Some e \<Rightarrow>
                      Some \<lparr>events = evs2 @ [Fatal_write e], output_file = file, exit_status = 1\<rparr>
                  | None \<Rightarrow>
                      Some \<lparr>events = evs2 @ [Printf_saved outputFile,
                                               Printf_processed (card (dom latestReleases))],
                            output_file = file, exit_status = 0\<rparr>) })"

section \<open>A small world\<close>

text \<open>
  A directory with three archives and a text file, used to run the program: \<open>a.zip\<close>
  holds \<open>lib.dll\<close>; the newer \<open>b.zip\<close> holds a directory, \<open>lib.dll\<close> and
  \<open>readme.txt\<close>; \<open>c.zip\<close> is not a valid archive. \<open>e.zip\<close>, which the walk does
  not visit, holds one entry whose name is empty.
\<close>

definition entry :: "string \<Rightarrow> bool \<Rightarrow> 32 word \<Rightarrow> FileHeader" where
  "entry name dir n = \<lparr>fh_Name = name, attr_dir = dir, UncompressedSize = n, UncompressedSize64 = 0\<rparr>"

definition demo_world :: world where
  "demo_world =
     \<lparr>os_Stat = (\<lambda>p. if p = ''a.zip'' then Inr 100 else if p = ''b.zip'' then Inr 200
                     else if p = ''c.zip'' then Inr 300 else if p = ''e.zip'' then Inr 400
                     else Inl (Error ''no such file'')),
      zip_OpenReader = (\<lambda>p. if p = ''a.zip'' then Inr [entry ''lib.dll'' False 100]
                     else if p = ''b.zip''
                       then Inr [entry ''docs/'' False 0, entry ''lib.dll'' False 200, entry ''readme.txt'' False 10]
                     else if p = ''e.zip'' then Inr [entry [] False 7]
                     else Inl (Error ''zip: not a valid zip file'')),
      filepath_Base = (\<lambda>p. p),
      filepath_Walk = (\<lambda>d. [(''X:/NETDBS'', Inr True), (''a.zip'', Inr False), (''b.zip'', Inr False),
                             (''c.zip'', Inr False), (''notes.txt'', Inr False)]),
      IsPathSeparator = (\<lambda>c. c = CHR ''/''),
      strings_ToLower = (\<lambda>s. s),
      time_Format = (\<lambda>t. if t = 100 then ''2024-01-01 00:00:00'' else ''2024-06-01 00:00:00''),
      os_Create = (\<lambda>p. None),
      WriteString_error = (\<lambda>n. None),
      range_allFiles_order = (\<lambda>m. [''readme.txt'', ''lib.dll'']),
      range_results_order = (\<lambda>m. [''lib.dll'', ''readme.txt''])\<rparr>"

text \<open>
  A grouping map for the resolver: three versions of \<open>lib.dll\<close>, not in the order of
  their times, one of \<open>readme.txt\<close>, and a name with no version at all.
\<close>

definition version :: "string \<Rightarrow> time \<Rightarrow> string \<Rightarrow> 64 word \<Rightarrow> FileRecord" where
  "version name t archive n =
     \<lparr>Name = name, ModTime = t, ArchivePath = archive, ArchiveName = archive, Size = n\<rparr>"

definition demo_allFiles :: "string \<rightharpoonup> FileRecord list" where
  "demo_allFiles =
     [''lib.dll'' \<mapsto> [version ''lib.dll'' 200 ''b.zip'' 200, version ''lib.dll'' 100 ''a.zip'' 100,
                      version ''lib.dll'' 150 ''d.zip'' 150],
      ''readme.txt'' \<mapsto> [version ''readme.txt'' 200 ''b.zip'' 10],
      ''old.txt'' \<mapsto> []]"

definition demo_keys :: "string list" where
  "demo_keys = [''old.txt'', ''readme.txt'', ''lib.dll'']"

text \<open>A name of 26 Cyrillic letters, two bytes each in UTF-8.\<close>

definition cyrillic_name :: string where
  "cyrillic_name = concat (replicate 26 [CHR 0xD0, CHR 0xA4])"

text \<open>
  Thirteen records of \<open>lib.dll\<close>: twelve of the same time 200, as twelve entries of
  that name in one archive give them, and after them an older one. The size tells them
  apart.
\<close>

definition tie_versions :: "FileRecord list" where
  "tie_versions =
     map (\<lambda>n. version ''lib.dll'' 200 ''new.zip'' (of_nat n)) [0 ..< 12]
       @ [version ''lib.dll'' 100 ''old.zip'' 12]"

definition tie_allFiles :: "string \<rightharpoonup> FileRecord list" where
  "tie_allFiles = [''lib.dll'' \<mapsto> tie_versions]"

text \<open>The small world with an output file that cannot be created.\<close>

definition readonly_world :: world where
  "readonly_world = demo_world\<lparr>os_Create := (\<lambda>p. Some (Error ''access denied''))\<rparr>"

text \<open>The archives that the walk of the small world finds, and the grouping map made of them.\<close>

definition demo_archives :: "string list" where
  "demo_archives = [''a.zip'', ''b.zip'', ''c.zip'']"

definition demo_grouping :: "string \<rightharpoonup> FileRecord list" where
  "demo_grouping =
     [''lib.dll'' \<mapsto> [version ''lib.dll'' 100 ''a.zip'' 100, version ''lib.dll'' 200 ''b.zip'' 200],
      ''readme.txt'' \<mapsto> [version ''readme.txt'' 200 ''b.zip'' 10]]"

section \<open>Functions for stating the properties\<close>

text \<open>The record made of one entry of an archive.\<close>

definition record_of :: "world \<Rightarrow> string \<Rightarrow> time \<Rightarrow> FileHeader \<Rightarrow> FileRecord" where
  "record_of w archivePath archiveInfo f =
     \<lparr>Name = fh_Name f, ModTime = archiveInfo, ArchivePath = archivePath,
      ArchiveName = filepath_Base w archivePath, Size = FileInfo_Size f\<rparr>"

text \<open>The slice of a name as the resolver leaves it: sorted, unless it is empty.\<close>

definition sorted_versions :: "sorter \<Rightarrow> FileRecord list \<Rightarrow> FileRecord list" where
  "sorted_versions srt vs = (if vs = [] then vs else the (srt versions_less vs))"

text \<open>
  Sorting by insertion as a function on lists. \<open>rins\<close> inserts into a sorted prefix
  that is given in reverse: the new element passes the elements it is less than.
  \<open>rsort\<close> inserts the elements of the rest one after the other.
\<close>

fun rins :: "('a \<Rightarrow> 'a \<Rightarrow> bool) \<Rightarrow> 'a \<Rightarrow> 'a list \<Rightarrow> 'a list" where
  "rins lt x [] = [x]"
| "rins lt x (y # ys) = (if lt x y then y # rins lt x ys else x # y # ys)"

fun rsort :: "('a \<Rightarrow> 'a \<Rightarrow> bool) \<Rightarrow> 'a list \<Rightarrow> 'a list \<Rightarrow> 'a list" where
  "rsort lt rp [] = rev rp"
| "rsort lt rp (x # rest) = rsort lt (rins lt x rp) rest"

text \<open>Of the records with the greatest time, the one that comes last.\<close>

definition latest_of :: "FileRecord list \<Rightarrow> FileRecord" where
  "latest_of vs = last (filter (\<lambda>v. ModTime v = Max (ModTime ` set vs)) vs)"

text \<open>
  The records of the archives that could be inspected, in the order of the archives,
  and the warnings for the others.
\<close>

definition inspected :: "world \<Rightarrow> string list \<Rightarrow> FileRecord list" where
  "inspected w archives =
     concat (map (\<lambda>p. case extractFileInfoFromArchive w p of Inl err \<Rightarrow> [] | Inr files \<Rightarrow> files) archives)"

definition warnings :: "world \<Rightarrow> string list \<Rightarrow> event list" where
  "warnings w archives =
     concat (map (\<lambda>p. case extractFileInfoFromArchive w p of
                          Inl err \<Rightarrow> [Log_archive_error p err] | Inr files \<Rightarrow> []) archives)"

text \<open>The grouping map that \<open>main\<close> builds from the archives found.\<close>

definition grouping :: "world \<Rightarrow> string list \<Rightarrow> (string \<rightharpoonup> FileRecord list)" where
  "grouping w archives = fst (range_archives w archives Map.empty [])"

text \<open>The row of a name in the report; nothing for a name that is not a key.\<close>

definition row :: "world \<Rightarrow> (string \<rightharpoonup> FileRecord) \<Rightarrow> string \<Rightarrow> string" where
  "row w results k = (case results k of None \<Rightarrow> [] | Some record \<Rightarrow> the (line w record))"

text \<open>
  The resolution map of a run: for each name of the grouping map, the last record of
  its slice after the sort.
\<close>

definition resolution :: "world \<Rightarrow> string list \<Rightarrow> (string \<rightharpoonup> FileRecord)" where
  "resolution w archives =
     (\<lambda>k. case grouping w archives k of
            None \<Rightarrow> None
          | Some vs \<Rightarrow> Some (sorted_versions sort_Slice vs ! (length vs - 1)))"

section \<open>Properties of extractFileInfoFromArchive\<close>

text \<open>The loop as a map over the entries it keeps.\<close>

lemma extract_loop_eq:
  "extract_loop w p t fs files =
     files @ map (record_of w p t) (filter (\<lambda>f. \<not> FileInfo_IsDir f) fs)"
  by (induction fs arbitrary: files) (simp_all add: record_of_def)

lemma extract_Inr:
  assumes "extractFileInfoFromArchive w p = Inr files"
  obtains t r where "os_Stat w p = Inr t" and "zip_OpenReader w p = Inr r"
    and "files = map (record_of w p t) (filter (\<lambda>f. \<not> FileInfo_IsDir f) r)"
  using assms
  by (auto simp: extractFileInfoFromArchive_def extract_loop_eq split: sum.splits)

lemma demo_b: "extractFileInfoFromArchive demo_world ''b.zip'' =
  Inr [\<lparr>Name = ''lib.dll'', ModTime = 200, ArchivePath = ''b.zip'', ArchiveName = ''b.zip'', Size = 200\<rparr>,
       \<lparr>Name = ''readme.txt'', ModTime = 200, ArchivePath = ''b.zip'', ArchiveName = ''b.zip'', Size = 10\<rparr>]"
  by (simp add: extractFileInfoFromArchive_def demo_world_def entry_def FileInfo_IsDir_def FileInfo_Size_def)

text \<open>
  C5: every record returned for an archive has the modification time that \<open>os.Stat\<close>
  gave for the archive file itself, so all records of one archive share it.
\<close>

theorem extract_modTime_is_archive_mtime:
  assumes "extractFileInfoFromArchive w archivePath = Inr files"
  shows "\<exists>t. os_Stat w archivePath = Inr t \<and> (\<forall>r \<in> set files. ModTime r = t)"
proof -
  from assms obtain t r where t: "os_Stat w archivePath = Inr t"
    and files: "files = map (record_of w archivePath t) (filter (\<lambda>f. \<not> FileInfo_IsDir f) r)"
    by (rule extract_Inr)
  have "\<forall>x \<in> set files. ModTime x = t"
    by (auto simp: files record_of_def)
  with t show ?thesis by blast
qed

text \<open>C5 on \<open>b.zip\<close>: both of its records carry the archive's time 200.\<close>

theorem extract_modTime_is_archive_mtime_witness:
  "os_Stat demo_world ''b.zip'' = Inr 200 \<and>
   map ModTime (projr (extractFileInfoFromArchive demo_world ''b.zip'')) = [200, 200]"
  using extract_modTime_is_archive_mtime [OF demo_b]
  unfolding demo_b by (simp add: demo_world_def)

text \<open>
  C6: the records returned are those of the entries that are not directories, in the
  order of the central directory; every record has the name of such an entry, and no
  record's name ends in a slash.
\<close>

theorem extract_skips_directories:
  assumes "extractFileInfoFromArchive w archivePath = Inr files"
  shows "\<exists>r. zip_OpenReader w archivePath = Inr r
           \<and> map Name files = map fh_Name (filter (\<lambda>f. \<not> FileInfo_IsDir f) r)
           \<and> (\<forall>x \<in> set files. \<exists>f \<in> set r. \<not> FileInfo_IsDir f \<and> Name x = fh_Name f)
           \<and> (\<forall>x \<in> set files. Name x = [] \<or> last (Name x) \<noteq> CHR ''/'')"
proof -
  from assms obtain t r where r: "zip_OpenReader w archivePath = Inr r"
    and files: "files = map (record_of w archivePath t) (filter (\<lambda>f. \<not> FileInfo_IsDir f) r)"
    by (rule extract_Inr)
  have 1: "map Name files = map fh_Name (filter (\<lambda>f. \<not> FileInfo_IsDir f) r)"
    by (simp add: files record_of_def comp_def)
  have 2: "\<forall>x \<in> set files. \<exists>f \<in> set r. \<not> FileInfo_IsDir f \<and> Name x = fh_Name f"
    by (auto simp: files record_of_def)
  have 3: "\<forall>x \<in> set files. Name x = [] \<or> last (Name x) \<noteq> CHR ''/''"
  proof
    fix x assume "x \<in> set files"
    with 2 obtain f where f: "\<not> FileInfo_IsDir f" "Name x = fh_Name f" by blast
    then show "Name x = [] \<or> last (Name x) \<noteq> CHR ''/''"
      by (auto simp: FileInfo_IsDir_def last_conv_nth)
  qed
  from r 1 2 3 show ?thesis by blast
qed

text \<open>C6 on \<open>b.zip\<close>: the directory \<open>docs/\<close> yields no record.\<close>

theorem extract_skips_directories_witness:
  "zip_OpenReader demo_world ''b.zip''
     = Inr [entry ''docs/'' False 0, entry ''lib.dll'' False 200, entry ''readme.txt'' False 10]
   \<and> FileInfo_IsDir (entry ''docs/'' False 0)
   \<and> map Name (projr (extractFileInfoFromArchive demo_world ''b.zip'')) = [''lib.dll'', ''readme.txt'']"
  using extract_skips_directories [OF demo_b]
  unfolding demo_b by (simp add: demo_world_def FileInfo_IsDir_def entry_def)

text \<open>
  C7 as stated fails: an entry with an empty name that is not a directory becomes a
  record with an empty name.
\<close>

theorem extract_empty_name_counterexample:
  "extractFileInfoFromArchive demo_world ''e.zip''
     = Inr [\<lparr>Name = [], ModTime = 400, ArchivePath = ''e.zip'', ArchiveName = ''e.zip'', Size = 7\<rparr>]"
  by (simp add: extractFileInfoFromArchive_def demo_world_def entry_def FileInfo_IsDir_def FileInfo_Size_def)

text \<open>
  C7, amended: a record carries the name of the entry it was made of, unchanged, so the
  names of the records are all non-empty exactly when the names of the entries that are
  not directories are.
\<close>

theorem extract_names_are_entry_names:
  assumes "extractFileInfoFromArchive w archivePath = Inr files"
  shows "\<exists>r. zip_OpenReader w archivePath = Inr r
           \<and> map Name files = map fh_Name (filter (\<lambda>f. \<not> FileInfo_IsDir f) r)
           \<and> ((\<forall>x \<in> set files. Name x \<noteq> []) \<longleftrightarrow> (\<forall>f \<in> set r. \<not> FileInfo_IsDir f \<longrightarrow> fh_Name f \<noteq> []))"
proof -
  from assms obtain t r where r: "zip_OpenReader w archivePath = Inr r"
    and files: "files = map (record_of w archivePath t) (filter (\<lambda>f. \<not> FileInfo_IsDir f) r)"
    by (rule extract_Inr)
  have 1: "map Name files = map fh_Name (filter (\<lambda>f. \<not> FileInfo_IsDir f) r)"
    by (simp add: files record_of_def comp_def)
  have 2: "(\<forall>x \<in> set files. Name x \<noteq> []) \<longleftrightarrow> (\<forall>f \<in> set r. \<not> FileInfo_IsDir f \<longrightarrow> fh_Name f \<noteq> [])"
    by (auto simp: files record_of_def)
  from r 1 2 show ?thesis by blast
qed

text \<open>C7, amended, on \<open>b.zip\<close>.\<close>

theorem extract_names_are_entry_names_witness:
  "map Name (projr (extractFileInfoFromArchive demo_world ''b.zip'')) = [''lib.dll'', ''readme.txt'']
   \<and> map fh_Name (filter (\<lambda>f. \<not> FileInfo_IsDir f) (projr (zip_OpenReader demo_world ''b.zip'')))
       = [''lib.dll'', ''readme.txt'']"
  using extract_names_are_entry_names [OF demo_b]
  unfolding demo_b by (simp add: demo_world_def FileInfo_IsDir_def entry_def)

section \<open>Properties of determineLatestReleases\<close>

text \<open>What the loop returns when every sort it runs returns.\<close>

lemma range_allFiles_result:
  assumes "distinct keys"
    and "\<forall>k vs. k \<in> set keys \<longrightarrow> allFiles k = Some vs \<longrightarrow> vs \<noteq> [] \<longrightarrow> srt versions_less vs \<noteq> None"
  shows "range_allFiles srt keys allFiles latest =
     Some ((\<lambda>k. if k \<in> set keys then map_option (sorted_versions srt) (allFiles k) else allFiles k),
           (\<lambda>k. if k \<in> set keys then
                   (case allFiles k of
                      None \<Rightarrow> latest k
                    | Some vs \<Rightarrow> if vs = [] then latest k
                                 else Some (sorted_versions srt vs ! (length vs - 1)))
                 else latest k))"
  using assms
proof (induction keys arbitrary: allFiles latest)
  case Nil
  then show ?case by simp
next
  case (Cons filename keys)
  have d: "filename \<notin> set keys" "distinct keys" using Cons.prems(1) by auto
  show ?case
  proof (cases "allFiles filename")
    case None
    have "range_allFiles srt (filename # keys) allFiles latest = range_allFiles srt keys allFiles latest"
      by (simp add: None)
    also have "\<dots> = Some ((\<lambda>k. if k \<in> set keys then map_option (sorted_versions srt) (allFiles k) else allFiles k),
           (\<lambda>k. if k \<in> set keys then
                   (case allFiles k of
                      None \<Rightarrow> latest k
                    | Some vs \<Rightarrow> if vs = [] then latest k
                                 else Some (sorted_versions srt vs ! (length vs - 1)))
                 else latest k))"
      using Cons.prems(2) by (intro Cons.IH d) auto
    finally show ?thesis
      by (auto simp: None fun_eq_iff)
  next
    case (Some versions)
    show ?thesis
    proof (cases "versions = []")
      case True
      have "range_allFiles srt (filename # keys) allFiles latest = range_allFiles srt keys allFiles latest"
        by (simp add: Some True)
      also have "\<dots> = Some ((\<lambda>k. if k \<in> set keys then map_option (sorted_versions srt) (allFiles k) else allFiles k),
           (\<lambda>k. if k \<in> set keys then
                   (case allFiles k of
                      None \<Rightarrow> latest k
                    | Some vs \<Rightarrow> if vs = [] then latest k
                                 else Some (sorted_versions srt vs ! (length vs - 1)))
                 else latest k))"
        using Cons.prems(2) by (intro Cons.IH d) auto
      finally show ?thesis
        by (auto simp: Some True fun_eq_iff sorted_versions_def)
    next
      case False
      from Cons.prems(2) Some False obtain versions' where v': "srt versions_less versions = Some versions'"
        by fastforce
      let ?allFiles = "allFiles(filename \<mapsto> versions')"
      let ?latest = "latest(filename \<mapsto> versions' ! (length versions - 1))"
      have "range_allFiles srt (filename # keys) allFiles latest = range_allFiles srt keys ?allFiles ?latest"
        by (simp add: Some False v')
      also have "\<dots> = Some ((\<lambda>k. if k \<in> set keys then map_option (sorted_versions srt) (?allFiles k) else ?allFiles k),
           (\<lambda>k. if k \<in> set keys then
                   (case ?allFiles k of
                      None \<Rightarrow> ?latest k
                    | Some vs \<Rightarrow> if vs = [] then ?latest k
                                 else Some (sorted_versions srt vs ! (length vs - 1)))
                 else ?latest k))"
        using Cons.prems(2) d by (intro Cons.IH) auto
      finally show ?thesis
        using d by (auto simp: Some False v' fun_eq_iff sorted_versions_def split: option.splits)
    qed
  qed
qed

lemma determineLatestReleases_result:
  assumes "distinct keys" and "set keys = dom allFiles"
    and "\<forall>k vs. allFiles k = Some vs \<longrightarrow> vs \<noteq> [] \<longrightarrow> srt versions_less vs \<noteq> None"
  shows "determineLatestReleases srt keys allFiles =
     Some ((\<lambda>k. case allFiles k of
                   None \<Rightarrow> None
                 | Some vs \<Rightarrow> if vs = [] then None
                              else Some (sorted_versions srt vs ! (length vs - 1))),
           (\<lambda>k. map_option (sorted_versions srt) (allFiles k)))"
proof -
  have "range_allFiles srt keys allFiles Map.empty =
     Some ((\<lambda>k. if k \<in> set keys then map_option (sorted_versions srt) (allFiles k) else allFiles k),
           (\<lambda>k. if k \<in> set keys then
                   (case allFiles k of
                      None \<Rightarrow> None
                    | Some vs \<Rightarrow> if vs = [] then None
                                 else Some (sorted_versions srt vs ! (length vs - 1)))
                 else None))"
    using assms(3) by (intro range_allFiles_result assms(1)) auto
  moreover have "(\<lambda>k. if k \<in> set keys then map_option (sorted_versions srt) (allFiles k) else allFiles k)
      = (\<lambda>k. map_option (sorted_versions srt) (allFiles k))"
    using assms(2) by (auto simp: fun_eq_iff domIff)
  moreover have "(\<lambda>k. if k \<in> set keys then
                   (case allFiles k of
                      None \<Rightarrow> None
                    | Some vs \<Rightarrow> if vs = [] then None
                                 else Some (sorted_versions srt vs ! (length vs - 1)))
                 else None) = (\<lambda>k. case allFiles k of
                   None \<Rightarrow> None
                 | Some vs \<Rightarrow> if vs = [] then None
                              else Some (sorted_versions srt vs ! (length vs - 1)))"
    using assms(2) by (auto simp: fun_eq_iff domIff split: option.splits)
  ultimately show ?thesis
    by (simp add: determineLatestReleases_def)
qed

lemma sorts_versions_last:
  assumes "sorts_versions srt vs" and "vs \<noteq> []"
  shows "srt versions_less vs \<noteq> None"
    and "sorted_versions srt vs ! (length vs - 1) \<in> set vs"
    and "\<forall>v \<in> set vs. ModTime v \<le> ModTime (sorted_versions srt vs ! (length vs - 1))"
proof -
  from assms(1) obtain ys where ys: "srt versions_less vs = Some ys" "mset ys = mset vs"
    "sorted_wrt (\<lambda>x y. \<not> versions_less y x) ys"
    by (auto simp: sorts_versions_def)
  have len: "length ys = length vs" using ys(2) by (metis size_mset)
  have set: "set ys = set vs" using ys(2) by (metis set_mset_mset)
  have ne: "ys \<noteq> []" using len assms(2) by auto
  have sv: "sorted_versions srt vs = ys" by (simp add: sorted_versions_def assms(2) ys(1))
  have l: "sorted_versions srt vs ! (length vs - 1) = last ys"
    by (simp add: sv last_conv_nth ne len)
  show "srt versions_less vs \<noteq> None" by (simp add: ys(1))
  show "sorted_versions srt vs ! (length vs - 1) \<in> set vs"
    using l ne set by auto
  have "\<forall>v \<in> set ys. ModTime v \<le> ModTime (last ys)"
  proof
    fix v assume "v \<in> set ys"
    then obtain i where i: "i < length ys" "v = ys ! i" by (auto simp: in_set_conv_nth)
    show "ModTime v \<le> ModTime (last ys)"
    proof (cases "i = length ys - 1")
      case True
      then show ?thesis using i ne by (simp add: last_conv_nth)
    next
      case False
      then have "i < length ys - 1" using i by auto
      then have "\<not> versions_less (ys ! (length ys - 1)) (ys ! i)"
        using ys(3) ne by (auto simp: sorted_wrt_iff_nth_less)
      then show ?thesis using i ne by (simp add: versions_less_def last_conv_nth)
    qed
  qed
  then show "\<forall>v \<in> set vs. ModTime v \<le> ModTime (sorted_versions srt vs ! (length vs - 1))"
    using l set by simp
qed

text \<open>
  A slice of at most 12 elements is sorted by insertion; this is how the sorts of the
  small grouping map are computed.
\<close>

lemma sort_Slice_short:
  "length x \<le> 12 \<Longrightarrow> sort_Slice lt x = insertionSort_func lt x 0 (int (length x))"
  by (simp add: sort_Slice_def pdqsort_func.simps [of lt x 0])

lemma demo_sort_lib:
  "sort_Slice versions_less [version ''lib.dll'' 200 ''b.zip'' 200, version ''lib.dll'' 100 ''a.zip'' 100,
                      version ''lib.dll'' 150 ''d.zip'' 150]
   = Some [version ''lib.dll'' 100 ''a.zip'' 100, version ''lib.dll'' 150 ''d.zip'' 150, version ''lib.dll'' 200 ''b.zip'' 200]"
  by code_simp

lemma demo_sort_readme:
  "sort_Slice versions_less [version ''readme.txt'' 200 ''b.zip'' 10] = Some [version ''readme.txt'' 200 ''b.zip'' 10]"
  by code_simp

lemma demo_sorts:
  "\<forall>k vs. demo_allFiles k = Some vs \<longrightarrow> vs \<noteq> [] \<longrightarrow> sorts_versions sort_Slice vs"
  by (auto simp: demo_allFiles_def sorts_versions_def demo_sort_lib demo_sort_readme split: if_splits)
    (simp_all add: versions_less_def version_def)

lemma demo_keys_ok: "distinct demo_keys" "set demo_keys = dom demo_allFiles"
  by (auto simp: demo_keys_def demo_allFiles_def)

lemma demo_lib: "demo_allFiles ''lib.dll'' = Some [version ''lib.dll'' 200 ''b.zip'' 200, version ''lib.dll'' 100 ''a.zip'' 100,
                      version ''lib.dll'' 150 ''d.zip'' 150]"
  by (simp add: demo_allFiles_def)

text \<open>
  C10: if \<open>sort.Slice\<close> keeps its promise on the non-empty slices of the grouping map,
  the resolver returns; the keys of its result are exactly the names whose slice is not
  empty, and the record stored for a name is one of that name's slice.
\<close>

theorem determineLatestReleases_keys_and_values:
  assumes "distinct keys" and "set keys = dom allFiles"
    and "\<forall>k vs. allFiles k = Some vs \<longrightarrow> vs \<noteq> [] \<longrightarrow> sorts_versions srt vs"
  shows "\<exists>latest allFiles'.
           determineLatestReleases srt keys allFiles = Some (latest, allFiles')
           \<and> dom latest = {k. \<exists>vs. allFiles k = Some vs \<and> vs \<noteq> []}
           \<and> (\<forall>k r. latest k = Some r \<longrightarrow> (\<exists>vs. allFiles k = Some vs \<and> r \<in> set vs))"
proof -
  let ?latest = "\<lambda>k. case allFiles k of
                   None \<Rightarrow> None
                 | Some vs \<Rightarrow> if vs = [] then None
                              else Some (sorted_versions srt vs ! (length vs - 1))"
  have "determineLatestReleases srt keys allFiles =
      Some (?latest, (\<lambda>k. map_option (sorted_versions srt) (allFiles k)))"
    using assms(3) sorts_versions_last(1)
    by (intro determineLatestReleases_result assms(1,2)) blast
  moreover have "dom ?latest = {k. \<exists>vs. allFiles k = Some vs \<and> vs \<noteq> []}"
    by (auto simp: dom_def split: option.splits)
  moreover have "\<forall>k r. ?latest k = Some r \<longrightarrow> (\<exists>vs. allFiles k = Some vs \<and> r \<in> set vs)"
    using assms(3) sorts_versions_last(2) by (auto split: option.splits if_splits)
  ultimately show ?thesis by blast
qed

text \<open>
  C10 on the small grouping map, sorted by the model of \<open>sort.Slice\<close>: the name without
  versions is skipped, the two others are the keys.
\<close>

theorem determineLatestReleases_keys_and_values_witness:
  "dom (fst (the (determineLatestReleases sort_Slice demo_keys demo_allFiles))) = {''lib.dll'', ''readme.txt''}"
proof -
  from determineLatestReleases_keys_and_values [OF demo_keys_ok demo_sorts]
  obtain latest allFiles' where
    "determineLatestReleases sort_Slice demo_keys demo_allFiles = Some (latest, allFiles')"
    "dom latest = {k. \<exists>vs. demo_allFiles k = Some vs \<and> vs \<noteq> []}"
    by blast
  moreover have "{k. \<exists>vs. demo_allFiles k = Some vs \<and> vs \<noteq> []} = {''lib.dll'', ''readme.txt''}"
    by (auto simp: demo_allFiles_def split: if_splits)
  ultimately show ?thesis by simp
qed

text \<open>
  C2: for a name whose records have pairwise distinct times, the resolver stores the
  record with the greatest time: every other record of the name is strictly older.
\<close>

theorem determineLatestReleases_picks_maximum:
  assumes "distinct keys" and "set keys = dom allFiles"
    and "\<forall>k vs. allFiles k = Some vs \<longrightarrow> vs \<noteq> [] \<longrightarrow> sorts_versions srt vs"
    and "allFiles name = Some vs" and "vs \<noteq> []"
    and "distinct (map ModTime vs)"
  shows "\<exists>latest allFiles' r.
           determineLatestReleases srt keys allFiles = Some (latest, allFiles')
           \<and> latest name = Some r \<and> r \<in> set vs
           \<and> (\<forall>v \<in> set vs. v \<noteq> r \<longrightarrow> ModTime v < ModTime r)"
proof -
  let ?latest = "\<lambda>k. case allFiles k of
                   None \<Rightarrow> None
                 | Some vs \<Rightarrow> if vs = [] then None
                              else Some (sorted_versions srt vs ! (length vs - 1))"
  let ?r = "sorted_versions srt vs ! (length vs - 1)"
  have sv: "sorts_versions srt vs" using assms(3,4,5) by blast
  have "determineLatestReleases srt keys allFiles =
      Some (?latest, (\<lambda>k. map_option (sorted_versions srt) (allFiles k)))"
    using assms(3) sorts_versions_last(1)
    by (intro determineLatestReleases_result assms(1,2)) blast
  moreover have "?latest name = Some ?r" by (simp add: assms(4,5))
  moreover have r: "?r \<in> set vs" using sv assms(5) by (rule sorts_versions_last(2))
  moreover have "\<forall>v \<in> set vs. v \<noteq> ?r \<longrightarrow> ModTime v < ModTime ?r"
  proof (intro ballI impI)
    fix v assume v: "v \<in> set vs" "v \<noteq> ?r"
    have "ModTime v \<le> ModTime ?r" using sorts_versions_last(3) [OF sv assms(5)] v(1) by blast
    moreover have "ModTime v \<noteq> ModTime ?r"
      using assms(6) v r by (auto simp: distinct_map inj_on_def)
    ultimately show "ModTime v < ModTime ?r" by simp
  qed
  ultimately show ?thesis by blast
qed

text \<open>C2 on the small grouping map: of the times 200, 100, 150 the record of 200 is chosen.\<close>

theorem determineLatestReleases_picks_maximum_witness:
  "ModTime (the (fst (the (determineLatestReleases sort_Slice demo_keys demo_allFiles)) ''lib.dll'')) = 200"
proof -
  have "distinct (map ModTime [version ''lib.dll'' 200 ''b.zip'' 200, version ''lib.dll'' 100 ''a.zip'' 100,
                      version ''lib.dll'' 150 ''d.zip'' 150])"
    by (simp add: version_def)
  from determineLatestReleases_picks_maximum [OF demo_keys_ok demo_sorts demo_lib _ this]
  obtain latest allFiles' r where *:
    "determineLatestReleases sort_Slice demo_keys demo_allFiles = Some (latest, allFiles')"
    "latest ''lib.dll'' = Some r"
    "r \<in> set [version ''lib.dll'' 200 ''b.zip'' 200, version ''lib.dll'' 100 ''a.zip'' 100,
                      version ''lib.dll'' 150 ''d.zip'' 150]"
    "\<forall>v \<in> set [version ''lib.dll'' 200 ''b.zip'' 200, version ''lib.dll'' 100 ''a.zip'' 100,
                      version ''lib.dll'' 150 ''d.zip'' 150]. v \<noteq> r \<longrightarrow> ModTime v < ModTime r"
    by blast
  from *(3,4) have "ModTime r = 200"
    by (auto simp: version_def)
  with *(1,2) show ?thesis by simp
qed

subsection \<open>Records of the same time\<close>

lemma length_rins: "length (rins lt x ys) = Suc (length ys)"
  by (induction ys) simp_all

lemma Less_append:
  "j = int (length pre) + 1 \<Longrightarrow> Less lt (pre @ y # x # rest) j (j - 1) = Some (lt x y)"
  by (simp add: Less_def nth_append nat_add_distrib)

lemma Swap_append:
  "j = int (length pre) + 1 \<Longrightarrow> Swap (pre @ y # x # rest) j (j - 1) = Some (pre @ x # y # rest)"
  by (simp add: Swap_def nth_append list_update_append nat_add_distrib)

lemma insertion_shift_rins:
  "insertion_shift lt (rev rp @ x # rest) 0 (int (length rp)) = Some (rev (rins lt x rp) @ rest)"
proof (induction rp arbitrary: rest)
  case Nil
  show ?case by (subst insertion_shift.simps) simp
next
  case (Cons y rp)
  have eq: "rev (y # rp) @ x # rest = rev rp @ y # x # rest" by simp
  have j: "int (length (y # rp)) = int (length (rev rp)) + 1" by simp
  have L: "Less lt (rev rp @ y # x # rest) (int (length (rev rp)) + 1) (int (length (rev rp)) + 1 - 1)
      = Some (lt x y)"
    by (rule Less_append) simp
  have S: "Swap (rev rp @ y # x # rest) (int (length (rev rp)) + 1) (int (length (rev rp)) + 1 - 1)
      = Some (rev rp @ x # y # rest)"
    by (rule Swap_append) simp
  have pos: "int (length (rev rp)) + 1 > 0" by simp
  show ?case
  proof (cases "lt x y")
    case True
    have "insertion_shift lt (rev (y # rp) @ x # rest) 0 (int (length (y # rp)))
        = insertion_shift lt (rev rp @ x # y # rest) 0 (int (length (rev rp)) + 1 - 1)"
      unfolding eq j
      by (subst insertion_shift.simps) (simp only: pos if_True L S True bind.bind_lunit)
    also have "\<dots> = Some (rev (rins lt x rp) @ y # rest)" using Cons.IH by simp
    finally show ?thesis using True by simp
  next
    case False
    have "insertion_shift lt (rev (y # rp) @ x # rest) 0 (int (length (y # rp)))
        = Some (rev rp @ y # x # rest)"
      unfolding eq j
      by (subst insertion_shift.simps) (simp only: pos if_True L False bind.bind_lunit if_False)
    then show ?thesis using False by simp
  qed
qed

lemma insertionSort_loop_rsort:
  "insertionSort_loop lt (rev rp @ rest) 0 (int (length rp + length rest)) (int (length rp))
     = Some (rsort lt rp rest)"
proof (induction rest arbitrary: rp)
  case Nil
  show ?case by (subst insertionSort_loop.simps) simp
next
  case (Cons x rest)
  have "insertionSort_loop lt (rev rp @ x # rest) 0 (int (length rp + length (x # rest))) (int (length rp))
      = insertionSort_loop lt (rev (rins lt x rp) @ rest) 0 (int (length rp + length (x # rest))) (int (length rp) + 1)"
    by (subst insertionSort_loop.simps) (simp add: insertion_shift_rins)
  also have "\<dots> = insertionSort_loop lt (rev (rins lt x rp) @ rest) 0
      (int (length (rins lt x rp) + length rest)) (int (length (rins lt x rp)))"
    by (simp add: length_rins add.commute)
  also have "\<dots> = Some (rsort lt (rins lt x rp) rest)" by (rule Cons.IH)
  finally show ?case by simp
qed

lemma insertionSort_func_rsort:
  "insertionSort_func lt x 0 (int (length x)) = Some (rsort lt [] x)"
proof (cases x)
  case Nil
  then show ?thesis
    unfolding insertionSort_func_def by (subst insertionSort_loop.simps) simp
next
  case (Cons y ys)
  have "insertionSort_func lt x 0 (int (length x))
      = insertionSort_loop lt (rev [y] @ ys) 0 (int (length [y] + length ys)) (int (length [y]))"
    by (simp add: insertionSort_func_def Cons)
  also have "\<dots> = Some (rsort lt [y] ys)" by (rule insertionSort_loop_rsort)
  finally show ?thesis by (simp add: Cons)
qed

lemma sort_Slice_short_rsort:
  "length x \<le> 12 \<Longrightarrow> sort_Slice lt x = Some (rsort lt [] x)"
  by (simp add: sort_Slice_short insertionSort_func_rsort)

text \<open>The last element of the sorted slice, followed through the insertions.\<close>

lemma hd_rins: "hd (rins lt x (y # ys)) = (if lt x y then y else x)"
  by simp

lemma rins_not_Nil: "rins lt x ys \<noteq> []"
  by (cases ys) simp_all

lemma length_rsort: "length (rsort lt rp rest) = length rp + length rest"
  by (induction rest arbitrary: rp) (simp_all add: length_rins)

lemma last_rsort:
  "last (rsort lt (y # rp) rest) = foldl (\<lambda>h x. if lt x h then h else x) y rest"
proof (induction rest arbitrary: y rp)
  case Nil
  show ?case by simp
next
  case (Cons x rest)
  show ?case
  proof (cases "lt x y")
    case True
    then show ?thesis using Cons.IH [of y "rins lt x rp"] by simp
  next
    case False
    then show ?thesis using Cons.IH [of x "y # rp"] by simp
  qed
qed

text \<open>
  For the comparison of the resolver, the element that the insertions leave last is the
  last of the records with the greatest time.
\<close>

lemma latest_of_snoc:
  assumes "vs \<noteq> []"
  shows "latest_of (vs @ [x]) = (if ModTime x < ModTime (latest_of vs) then latest_of vs else x)"
proof -
  let ?m = "Max (ModTime ` set vs)"
  have fin: "finite (ModTime ` set vs)" "ModTime ` set vs \<noteq> {}" using assms by auto
  have mem: "?m \<in> ModTime ` set vs" using fin by (rule Max_in)
  then have ne: "filter (\<lambda>v. ModTime v = ?m) vs \<noteq> []"
    by (auto simp: filter_empty_conv)
  have lm: "ModTime (latest_of vs) = ?m"
    using last_in_set [OF ne] by (simp add: latest_of_def)
  have max': "Max (ModTime ` set (vs @ [x])) = max (ModTime x) ?m"
    using fin by simp
  show ?thesis
  proof (cases "ModTime x < ?m")
    case True
    then have "Max (ModTime ` set (vs @ [x])) = ?m" using max' by simp
    then have "latest_of (vs @ [x]) = last (filter (\<lambda>v. ModTime v = ?m) vs)"
      using True by (simp add: latest_of_def)
    then show ?thesis using True lm by (simp add: latest_of_def)
  next
    case False
    then have "Max (ModTime ` set (vs @ [x])) = ModTime x" using max' by simp
    then have "latest_of (vs @ [x]) = x"
      by (simp add: latest_of_def)
    then show ?thesis using False lm by simp
  qed
qed

lemma foldl_latest_of:
  "foldl (\<lambda>h x. if versions_less x h then h else x) y rest = latest_of (y # rest)"
proof (induction rest rule: rev_induct)
  case Nil
  show ?case by (simp add: latest_of_def)
next
  case (snoc x rest)
  have "latest_of (y # rest @ [x]) = latest_of ((y # rest) @ [x])" by simp
  also have "\<dots> = (if ModTime x < ModTime (latest_of (y # rest)) then latest_of (y # rest) else x)"
    by (rule latest_of_snoc) simp
  finally show ?case using snoc.IH by (simp add: versions_less_def)
qed

lemma sort_Slice_short_last:
  assumes "length vs \<le> 12" and "vs \<noteq> []"
  shows "\<exists>ys. sort_Slice versions_less vs = Some ys \<and> ys ! (length vs - 1) = latest_of vs"
proof -
  obtain y rest where vs: "vs = y # rest" using assms(2) by (cases vs) auto
  let ?ys = "rsort versions_less [] vs"
  have s: "sort_Slice versions_less vs = Some ?ys" using assms(1) by (rule sort_Slice_short_rsort)
  have len: "length ?ys = length vs" by (simp add: length_rsort)
  then have "?ys \<noteq> []" using assms(2) by auto
  then have "?ys ! (length vs - 1) = last ?ys" using len by (simp add: last_conv_nth)
  also have "\<dots> = last (rsort versions_less [y] rest)" by (simp add: vs)
  also have "\<dots> = latest_of vs" by (simp add: last_rsort foldl_latest_of vs)
  finally show ?thesis using s by blast
qed

text \<open>
  C1 as stated fails: \<open>sort.Slice\<close> is not stable. Of the twelve records of time
  200, followed by an older record, the resolver chooses the second (size 1), not the
  twelfth (size 11), which is the last of them in the input.
\<close>

theorem determineLatestReleases_tie_counterexample:
  "map_option (\<lambda>r. map_option Size (fst r ''lib.dll''))
     (determineLatestReleases sort_Slice [''lib.dll''] tie_allFiles) = Some (Some 1)
   \<and> map ModTime tie_versions = [200, 200, 200, 200, 200, 200, 200, 200, 200, 200, 200, 200, 100]
   \<and> map Size tie_versions = [0, 1, 2, 3, 4, 5, 6, 7, 8, 9, 10, 11, 12]"
  by code_simp

text \<open>
  C1, amended: for a name with at most 12 records the resolver chooses, of the records
  with the greatest time, the one that comes last in the name's sequence:
  \<open>sort.Slice\<close> sorts a slice of at most 12 elements by insertion, which keeps equal
  elements in their order.
\<close>

theorem determineLatestReleases_tie_break_short:
  assumes "distinct keys" and "set keys = dom allFiles"
    and "\<forall>k vs'. allFiles k = Some vs' \<longrightarrow> vs' \<noteq> [] \<longrightarrow> sort_Slice versions_less vs' \<noteq> None"
    and "allFiles name = Some vs" and "vs \<noteq> []" and "length vs \<le> 12"
  shows "\<exists>latest allFiles'.
           determineLatestReleases sort_Slice keys allFiles = Some (latest, allFiles')
           \<and> latest name = Some (last (filter (\<lambda>v. ModTime v = Max (ModTime ` set vs)) vs))"
proof -
  let ?latest = "\<lambda>k. case allFiles k of
                   None \<Rightarrow> None
                 | Some vs \<Rightarrow> if vs = [] then None
                              else Some (sorted_versions sort_Slice vs ! (length vs - 1))"
  have "determineLatestReleases sort_Slice keys allFiles =
      Some (?latest, (\<lambda>k. map_option (sorted_versions sort_Slice) (allFiles k)))"
    using assms(3) by (intro determineLatestReleases_result assms(1,2)) blast
  moreover obtain ys where "sort_Slice versions_less vs = Some ys" "ys ! (length vs - 1) = latest_of vs"
    using sort_Slice_short_last [OF assms(6,5)] by blast
  then have "?latest name = Some (latest_of vs)"
    by (simp add: assms(4,5) sorted_versions_def)
  ultimately show ?thesis unfolding latest_of_def by blast
qed

text \<open>C1, amended, on the twelve records of time 200 alone: the twelfth is chosen.\<close>

theorem determineLatestReleases_tie_break_short_witness:
  "map_option Size (fst (the (determineLatestReleases sort_Slice [''lib.dll''] [''lib.dll'' \<mapsto> take 12 tie_versions]))
      ''lib.dll'') = Some 11"
proof -
  have 1: "distinct [''lib.dll'']" by simp
  have 2: "set [''lib.dll''] = dom [''lib.dll'' \<mapsto> take 12 tie_versions]" by simp
  have s: "sort_Slice versions_less (take 12 tie_versions) \<noteq> None" by code_simp
  have 3: "\<forall>k vs'. [''lib.dll'' \<mapsto> take 12 tie_versions] k = Some vs' \<longrightarrow> vs' \<noteq> []
      \<longrightarrow> sort_Slice versions_less vs' \<noteq> None"
    using s by (auto split: if_splits)
  have 4: "[''lib.dll'' \<mapsto> take 12 tie_versions] ''lib.dll'' = Some (take 12 tie_versions)" by simp
  have 5: "take 12 tie_versions \<noteq> []" by code_simp
  have 6: "length (take 12 tie_versions) \<le> 12" by simp
  have 7: "Size (last (filter (\<lambda>v. ModTime v = Max (ModTime ` set (take 12 tie_versions))) (take 12 tie_versions))) = 11"
    by code_simp
  from determineLatestReleases_tie_break_short [OF 1 2 3 4 5 6]
  obtain latest allFiles' where
    a: "determineLatestReleases sort_Slice [''lib.dll''] [''lib.dll'' \<mapsto> take 12 tie_versions]
          = Some (latest, allFiles')"
    and b: "latest ''lib.dll'' = Some (last (filter
          (\<lambda>v. ModTime v = Max (ModTime ` set (take 12 tie_versions))) (take 12 tie_versions)))"
    by blast
  show ?thesis by (simp only: a b option.sel fst_conv option.map 7)
qed

subsection \<open>A second run\<close>

text \<open>A slice that is sorted already is left as it is.\<close>

lemma rsort_sorted:
  "sorted_wrt (\<lambda>x y. \<not> lt y x) (rev rp @ rest) \<Longrightarrow> rsort lt rp rest = rev rp @ rest"
proof (induction rest arbitrary: rp)
  case Nil
  show ?case by simp
next
  case (Cons x rest)
  have "rins lt x rp = x # rp"
  proof (cases rp)
    case Nil
    then show ?thesis by simp
  next
    case (Cons y rp')
    then have "\<not> lt x y" using Cons.prems by (auto simp: sorted_wrt_append)
    then show ?thesis using Cons by simp
  qed
  moreover have "sorted_wrt (\<lambda>x y. \<not> lt y x) (rev (x # rp) @ rest)" using Cons.prems by simp
  ultimately show ?case using Cons.IH [of "x # rp"] by simp
qed

lemma quo_nonneg: "0 \<le> a \<Longrightarrow> 0 < b \<Longrightarrow> quo a b = a div b"
  by (simp add: quo_def)

lemma bits_Len_pos: "0 < n \<Longrightarrow> 0 < bits_Len n"
  by (subst bits_Len.simps) simp

lemma Less_sorted:
  assumes "sorted_wrt (\<lambda>x y. \<not> lt y x) x" and "0 \<le> a" and "a < b" and "b < int (length x)"
  shows "Less lt x b a = Some False"
proof -
  have "nat a < nat b" "nat b < length x" using assms(2-4) by auto
  then have "\<not> lt (x ! nat b) (x ! nat a)"
    using assms(1) by (simp add: sorted_wrt_iff_nth_less)
  then show ?thesis using assms(2-4) by (simp add: Less_def)
qed

lemma order2_sorted:
  assumes "sorted_wrt (\<lambda>x y. \<not> lt y x) x" and "0 \<le> a" and "a < b" and "b < int (length x)"
  shows "order2_func lt x a b swaps = Some (a, b, swaps)"
  by (simp add: order2_func_def Less_sorted [OF assms])

lemma median_sorted:
  assumes "sorted_wrt (\<lambda>x y. \<not> lt y x) x" and "0 \<le> a" and "a < b" and "b < c" and "c < int (length x)"
  shows "median_func lt x a b c swaps = Some (b, swaps)"
proof -
  have 1: "order2_func lt x a b swaps = Some (a, b, swaps)"
    using assms by (intro order2_sorted) auto
  have 2: "order2_func lt x b c swaps = Some (b, c, swaps)"
    using assms by (intro order2_sorted) auto
  show ?thesis by (simp add: median_func_def 1 2)
qed

lemma medianAdjacent_sorted:
  assumes "sorted_wrt (\<lambda>x y. \<not> lt y x) x" and "1 \<le> a" and "a + 1 < int (length x)"
  shows "medianAdjacent_func lt x a swaps = Some (a, swaps)"
  unfolding medianAdjacent_func_def using assms by (intro median_sorted) auto

lemma choosePivot_sorted:
  assumes "sorted_wrt (\<lambda>x y. \<not> lt y x) x" and "12 < length x"
  shows "choosePivot_func lt x 0 (int (length x)) = Some (int (length x) div 4 * 2, increasingHint)"
proof -
  let ?n = "int (length x)"
  let ?q = "?n div 4"
  have n: "12 < ?n" using assms(2) by simp
  have q: "quo ?n 4 = ?q" by (simp add: quo_nonneg)
  have q3: "3 \<le> ?q" using n by simp
  have m: "median_func lt x (?q * 1) (?q * 2) (?q * 3) 0 = Some (?q * 2, 0)"
    using assms(1) q3 n by (intro median_sorted) auto
  show ?thesis
  proof (cases "50 \<le> ?n")
    case True
    have a: "medianAdjacent_func lt x (?q * 1) 0 = Some (?q * 1, 0)"
      using assms(1) q3 n by (intro medianAdjacent_sorted) auto
    have b: "medianAdjacent_func lt x (?q * 2) 0 = Some (?q * 2, 0)"
      using assms(1) q3 n by (intro medianAdjacent_sorted) auto
    have c: "medianAdjacent_func lt x (?q * 3) 0 = Some (?q * 3, 0)"
      using assms(1) q3 n True by (intro medianAdjacent_sorted) auto
    show ?thesis
      using True n m a b c by (simp add: choosePivot_func_def q Let_def)
  next
    case False
    then show ?thesis
      using n m by (simp add: choosePivot_func_def q Let_def)
  qed
qed

lemma pis_scan_sorted:
  assumes "sorted_wrt (\<lambda>x y. \<not> lt y x) x"
  shows "1 \<le> i \<Longrightarrow> i \<le> int (length x) \<Longrightarrow> pis_scan lt x (int (length x)) i = Some (int (length x))"
proof (induction "nat (int (length x) - i)" arbitrary: i)
  case 0
  then have "i = int (length x)" by simp
  then show ?case by (subst pis_scan.simps) simp
next
  case (Suc k)
  then have lt': "i < int (length x)" by simp
  have "Less lt x i (i - 1) = Some False"
    using assms Suc.prems lt' by (intro Less_sorted) auto
  then have "pis_scan lt x (int (length x)) i = pis_scan lt x (int (length x)) (i + 1)"
    using lt' by (subst pis_scan.simps) simp
  also have "\<dots> = Some (int (length x))"
    using Suc.hyps(2) Suc.prems lt' by (intro Suc.hyps(1)) auto
  finally show ?case .
qed

lemma partialInsertionSort_sorted:
  assumes "sorted_wrt (\<lambda>x y. \<not> lt y x) x" and "12 < length x"
  shows "partialInsertionSort_func lt x 0 (int (length x)) = Some (x, True)"
proof -
  have "pis_scan lt x (int (length x)) (0 + 1) = Some (int (length x))"
    using assms by (intro pis_scan_sorted) auto
  then show ?thesis
    unfolding partialInsertionSort_func_def by (subst pis_steps.simps) simp
qed

lemma sort_Slice_sorted:
  assumes "sorted_wrt (\<lambda>x y. \<not> lt y x) x"
  shows "sort_Slice lt x = Some x"
proof (cases "length x \<le> 12")
  case True
  then show ?thesis
    using assms rsort_sorted [of lt "[]" x] by (simp add: sort_Slice_short_rsort)
next
  case False
  then have n: "12 < length x" by simp
  then have "0 < length x" by arith
  then have "0 < bits_Len (length x)" by (rule bits_Len_pos)
  then have l: "int (bits_Len (length x)) \<noteq> 0" by simp
  show ?thesis
    unfolding sort_Slice_def Let_def
    by (subst pdqsort_func.simps)
      (use n l in \<open>simp add: choosePivot_sorted [OF assms n] partialInsertionSort_sorted [OF assms n]\<close>)
qed

text \<open>
  C8: the resolver sorts the slices of the grouping map in place. If \<open>sort.Slice\<close>
  keeps its promise on them, a second run on the map as the first run left it, in
  whatever order it visits the keys, returns the same resolution map and leaves the
  grouping map as it is.
\<close>

theorem determineLatestReleases_idempotent:
  assumes "distinct keys" and "set keys = dom allFiles"
    and "\<forall>k vs. allFiles k = Some vs \<longrightarrow> vs \<noteq> [] \<longrightarrow> sorts_versions sort_Slice vs"
    and "distinct keys'" and "set keys' = dom allFiles"
  shows "\<exists>latest allFiles'.
           determineLatestReleases sort_Slice keys allFiles = Some (latest, allFiles')
           \<and> determineLatestReleases sort_Slice keys' allFiles' = Some (latest, allFiles')"
proof -
  let ?sv = "sorted_versions sort_Slice"
  let ?latest = "\<lambda>k. case allFiles k of
                   None \<Rightarrow> None
                 | Some vs \<Rightarrow> if vs = [] then None else Some (?sv vs ! (length vs - 1))"
  let ?allFiles' = "\<lambda>k. map_option ?sv (allFiles k)"
  have first: "determineLatestReleases sort_Slice keys allFiles = Some (?latest, ?allFiles')"
    using assms(3) sorts_versions_last(1)
    by (intro determineLatestReleases_result assms(1,2)) blast
  have sv: "?sv (?sv vs) = ?sv vs \<and> length (?sv vs) = length vs
      \<and> sort_Slice versions_less (?sv vs) \<noteq> None" if "allFiles k = Some vs" for k vs
  proof (cases "vs = []")
    case True
    have "sort_Slice versions_less ([] :: FileRecord list) = Some []"
      by (rule sort_Slice_sorted) simp
    then show ?thesis using True by (simp add: sorted_versions_def)
  next
    case False
    with assms(3) that obtain ys where ys: "sort_Slice versions_less vs = Some ys"
      "mset ys = mset vs" "sorted_wrt (\<lambda>x y. \<not> versions_less y x) ys"
      unfolding sorts_versions_def by blast
    have 1: "?sv vs = ys" using False ys(1) by (simp add: sorted_versions_def)
    have 2: "sort_Slice versions_less ys = Some ys" using ys(3) by (rule sort_Slice_sorted)
    have 3: "length ys = length vs" using ys(2) by (metis size_mset)
    show ?thesis using 1 2 3 by (simp add: sorted_versions_def)
  qed
  have dom': "set keys' = dom ?allFiles'" using assms(5) by (auto simp: dom_def)
  have ret: "\<forall>k ys. ?allFiles' k = Some ys \<longrightarrow> ys \<noteq> [] \<longrightarrow> sort_Slice versions_less ys \<noteq> None"
    using sv by auto
  have second: "determineLatestReleases sort_Slice keys' ?allFiles' =
      Some ((\<lambda>k. case ?allFiles' k of
                   None \<Rightarrow> None
                 | Some vs \<Rightarrow> if vs = [] then None else Some (?sv vs ! (length vs - 1))),
            (\<lambda>k. map_option ?sv (?allFiles' k)))"
    using ret by (intro determineLatestReleases_result assms(4) dom') blast
  have l: "(\<lambda>k. case ?allFiles' k of
                   None \<Rightarrow> None
                 | Some vs \<Rightarrow> if vs = [] then None else Some (?sv vs ! (length vs - 1))) = ?latest"
  proof
    fix k
    show "(case ?allFiles' k of
                   None \<Rightarrow> None
                 | Some vs \<Rightarrow> if vs = [] then None else Some (?sv vs ! (length vs - 1))) = ?latest k"
    proof (cases "allFiles k")
      case None
      then show ?thesis by simp
    next
      case (Some vs)
      from sv [OF Some] have "?sv (?sv vs) = ?sv vs" "length (?sv vs) = length vs" by simp_all
      moreover from this(2) have "?sv vs = [] \<longleftrightarrow> vs = []" by (metis length_0_conv)
      ultimately show ?thesis using Some by simp
    qed
  qed
  have a: "(\<lambda>k. map_option ?sv (?allFiles' k)) = ?allFiles'"
  proof
    fix k
    show "map_option ?sv (?allFiles' k) = ?allFiles' k"
      using sv [of k] by (cases "allFiles k") simp_all
  qed
  from first second l a show ?thesis by (simp only:) blast
qed

text \<open>C8 on the small grouping map, the second run visiting the keys in reverse.\<close>

theorem determineLatestReleases_idempotent_witness:
  "\<exists>latest allFiles'.
     determineLatestReleases sort_Slice demo_keys demo_allFiles = Some (latest, allFiles')
     \<and> determineLatestReleases sort_Slice (rev demo_keys) allFiles' = Some (latest, allFiles')"
proof -
  have "distinct (rev demo_keys)" "set (rev demo_keys) = dom demo_allFiles"
    using demo_keys_ok by simp_all
  with determineLatestReleases_idempotent [OF demo_keys_ok demo_sorts]
  show ?thesis by blast
qed

section \<open>Properties of writeResultsToFile\<close>

text \<open>
  C3: the divider is meant to be as long as the header line, but
  \<open>len(header)\<close> counts the bytes of the header, of which the Cyrillic letters take
  two each, and its final newline. The header line has 88 characters in 113 bytes
  before the newline; the divider line has 114 dashes.
\<close>

theorem divider_is_longer_than_header_line:
  "length header = 114 \<and> last header = CHR 0x0A \<and> RuneCountInString (butlast header) = 88
   \<and> length (butlast header) = 113 \<and> divider = replicate 114 CHR ''-'' @ newline"
  by code_simp

text \<open>
  C4 as stated fails for a name with characters of more than one byte. The name of 26
  Cyrillic letters has 52 bytes: it is cut after 47 bytes, in the middle of a letter,
  and since the cut text has only 27 runes, 23 spaces follow the dots.
\<close>

theorem name_field_cyrillic_counterexample:
  "length cyrillic_name = 52 \<and> RuneCountInString cyrillic_name = 26
   \<and> name_field cyrillic_name = Some (take 47 cyrillic_name @ ''...'' @ replicate 23 CHR '' '')"
  by code_simp

text \<open>A string of ASCII bytes has as many runes as bytes.\<close>

lemma RuneCount_loop_ascii:
  "\<forall>c \<in> set s. (of_char c :: nat) < 0x80 \<Longrightarrow> i \<le> length s \<Longrightarrow>
     RuneCount_loop s i n = n + (length s - i)"
proof (induction s i n rule: RuneCount_loop.induct)
  case (1 s i n)
  show ?case
  proof (cases "i < length s")
    case True
    then have "s ! i \<in> set s" by simp
    with "1.prems"(1) have "byte_at s i < 0x80" unfolding byte_at_def by blast
    then have step: "rune_step s i = 1" by (simp add: rune_step_def Let_def)
    have "RuneCount_loop s i n = RuneCount_loop s (i + 1) (n + 1)"
      using True step by (subst RuneCount_loop.simps) simp
    also have "\<dots> = (n + 1) + (length s - (i + 1))"
      using "1.IH" [OF True] "1.prems"(1) True step by simp
    finally show ?thesis using True by simp
  next
    case False
    then show ?thesis using "1.prems" by (subst RuneCount_loop.simps) simp
  qed
qed

lemma RuneCountInString_ascii:
  "\<forall>c \<in> set s. (of_char c :: nat) < 0x80 \<Longrightarrow> RuneCountInString s = length s"
  by (simp add: RuneCountInString_def RuneCount_loop_ascii)

text \<open>
  C4, amended: the limit of 50 and the cut at 47 count bytes, the padding counts runes.
  The field is the name, cut to its first 47 bytes and \<open>...\<close> if it has more than 50
  bytes, followed by as many spaces as the text has runes fewer than 50. For a name of
  ASCII bytes this is the law of the claim: the first 47 bytes and \<open>...\<close>, or the name
  padded to 50 bytes.
\<close>

theorem name_field_law:
  "name_field name =
     Some (let t = (if length name > 50 then take 47 name @ ''...'' else name)
           in t @ replicate (50 - RuneCountInString t) CHR '' '')
   \<and> ((\<forall>c \<in> set name. (of_char c :: nat) < 0x80) \<longrightarrow>
        name_field name =
          Some (if length name > 50 then take 47 name @ ''...''
                else name @ replicate (50 - length name) CHR '' ''))"
proof -
  let ?t = "if length name > 50 then take 47 name @ ''...'' else name"
  have t: "truncateString name 50 = Some ?t"
    by (simp add: truncateString_def)
  have 1: "name_field name = Some (?t @ replicate (50 - RuneCountInString ?t) CHR '' '')"
    by (simp only: name_field_def t pad_right_def option.map)
  have 2: "name_field name =
          Some (if length name > 50 then take 47 name @ ''...''
                else name @ replicate (50 - length name) CHR '' '')"
    if ascii: "\<forall>c \<in> set name. (of_char c :: nat) < 0x80"
  proof -
    have "\<forall>c \<in> set ?t. (of_char c :: nat) < 0x80"
      using ascii by (auto dest: in_set_takeD)
    then have "RuneCountInString ?t = length ?t" by (rule RuneCountInString_ascii)
    then show ?thesis unfolding 1 by (cases "length name > 50") simp_all
  qed
  show ?thesis using 1 2 by (simp add: Let_def)
qed

text \<open>C4, amended, on a name of 60 ASCII bytes and on \<open>lib.dll\<close>.\<close>

theorem name_field_law_witness:
  "name_field ''a-rather-long-file-name-that-needs-more-than-fifty-bytes.dll''
     = Some ''a-rather-long-file-name-that-needs-more-than-fi...''
   \<and> name_field ''lib.dll'' = Some ''lib.dll                                           ''"
proof -
  have 1: "\<forall>c \<in> set ''a-rather-long-file-name-that-needs-more-than-fifty-bytes.dll''. (of_char c :: nat) < 0x80"
    by code_simp
  have 2: "\<forall>c \<in> set ''lib.dll''. (of_char c :: nat) < 0x80"
    by code_simp
  have 3: "(if length ''a-rather-long-file-name-that-needs-more-than-fifty-bytes.dll'' > 50
            then take 47 ''a-rather-long-file-name-that-needs-more-than-fifty-bytes.dll'' @ ''...''
            else ''a-rather-long-file-name-that-needs-more-than-fifty-bytes.dll''
               @ replicate (50 - length ''a-rather-long-file-name-that-needs-more-than-fifty-bytes.dll'') CHR '' '')
           = ''a-rather-long-file-name-that-needs-more-than-fi...''"
    by code_simp
  have 4: "(if length ''lib.dll'' > 50 then take 47 ''lib.dll'' @ ''...''
            else ''lib.dll'' @ replicate (50 - length ''lib.dll'') CHR '' '')
           = ''lib.dll                                           ''"
    by code_simp
  from name_field_law [of "''a-rather-long-file-name-that-needs-more-than-fifty-bytes.dll''"] 1
  have "name_field ''a-rather-long-file-name-that-needs-more-than-fifty-bytes.dll''
     = Some ''a-rather-long-file-name-that-needs-more-than-fi...''"
    unfolding 3 by blast
  moreover from name_field_law [of "''lib.dll''"] 2
  have "name_field ''lib.dll'' = Some ''lib.dll                                           ''"
    unfolding 4 by blast
  ultimately show ?thesis by (rule conjI)
qed

section \<open>Properties of main\<close>

lemma append_files_append:
  "append_files (xs @ ys) allFiles = append_files ys (append_files xs allFiles)"
  by (induction xs arbitrary: allFiles) simp_all

lemma append_files_eq:
  "append_files files allFiles k =
     (if filter (\<lambda>f. Name f = k) files = [] then allFiles k
      else Some ((case allFiles k of None \<Rightarrow> [] | Some vs \<Rightarrow> vs) @ filter (\<lambda>f. Name f = k) files))"
proof (induction files arbitrary: allFiles)
  case Nil
  show ?case by simp
next
  case (Cons f files)
  show ?case
    by (simp add: Cons.IH split: option.splits)
qed

lemma range_archives_eq:
  "range_archives w archives allFiles evs =
     (append_files (inspected w archives) allFiles, evs @ warnings w archives)"
proof (induction archives arbitrary: allFiles evs)
  case Nil
  show ?case by (simp add: inspected_def warnings_def)
next
  case (Cons p archives)
  show ?case
  proof (cases "extractFileInfoFromArchive w p")
    case (Inl err)
    then show ?thesis by (simp add: Cons.IH inspected_def warnings_def)
  next
    case (Inr files)
    then show ?thesis by (simp add: Cons.IH inspected_def warnings_def append_files_append)
  qed
qed

lemma grouping_eq:
  "grouping w archives k =
     (if filter (\<lambda>f. Name f = k) (inspected w archives) = [] then None
      else Some (filter (\<lambda>f. Name f = k) (inspected w archives)))"
  by (simp add: grouping_def range_archives_eq append_files_eq)

lemma grouping_not_empty: "grouping w archives k \<noteq> Some []"
  by (simp add: grouping_eq)

lemma inspected_mem:
  "p \<in> set archives \<Longrightarrow> extractFileInfoFromArchive w p = Inr files \<Longrightarrow> f \<in> set files
     \<Longrightarrow> f \<in> set (inspected w archives)"
  by (force simp: inspected_def)

lemma warnings_mem:
  "p \<in> set archives \<Longrightarrow> extractFileInfoFromArchive w p = Inl err
     \<Longrightarrow> Log_archive_error p err \<in> set (warnings w archives)"
  by (force simp: warnings_def)

text \<open>A row can always be written: 50 is not less than 3.\<close>

lemma line_Some: "line w r \<noteq> None"
  by (simp add: line_def name_field_def truncateString_def)

text \<open>The rows of the report when no write fails.\<close>

lemma range_results_ok:
  assumes "\<forall>n. WriteString_error w n = None"
  shows "range_results w results keys out =
     Some (\<lparr>written = written out @ concat (map (row w results) keys),
            calls = calls out + length (filter (\<lambda>k. results k \<noteq> None) keys)\<rparr>, None)"
proof (induction keys arbitrary: out)
  case Nil
  show ?case by (cases out) simp
next
  case (Cons k keys)
  show ?case
  proof (cases "results k")
    case None
    then show ?thesis using Cons.IH [of out] by (simp add: row_def)
  next
    case (Some rcd)
    obtain l where l: "line w rcd = Some l" using line_Some [of w rcd] by auto
    let ?out' = "\<lparr>written = written out @ l, calls = calls out + 1\<rparr>"
    have "WriteString w out l = (?out', None)"
      using assms by (simp add: WriteString_def)
    then show ?thesis using Cons.IH [of ?out'] Some l by (simp add: row_def)
  qed
qed

lemma writeResultsToFile_ok:
  assumes "os_Create w filename = None" and "\<forall>n. WriteString_error w n = None"
  shows "\<exists>n. writeResultsToFile w filename results =
     Some (Some \<lparr>written = header @ divider @ concat (map (row w results) (range_results_order w results)),
                 calls = n\<rparr>, None)"
  using assms by (simp add: writeResultsToFile_def WriteString_def range_results_ok)

text \<open>A run that finds archives and whose sorts return, up to the writing of the report.\<close>

lemma main_eq:
  assumes found: "findArchiveFiles w ''X:/NETDBS'' = Inr archives" and ne: "archives \<noteq> []"
    and order1: "distinct (range_allFiles_order w (grouping w archives))"
      "set (range_allFiles_order w (grouping w archives)) = dom (grouping w archives)"
    and sorts: "\<forall>k vs. grouping w archives k = Some vs \<longrightarrow> sorts_versions sort_Slice vs"
  shows "main w =
     (case writeResultsToFile w ''./latest_releases.txt'' (resolution w archives) of
        None \<Rightarrow> None
      | Some (out, Some e) \<Rightarrow>
          Some \<lparr>events = [Printf_searching ''X:/NETDBS'', Printf_found (length archives)]
                   @ warnings w archives @ [Fatal_write e],
                output_file = out, exit_status = 1\<rparr>
      | Some (out, None) \<Rightarrow>
          Some \<lparr>events = [Printf_searching ''X:/NETDBS'', Printf_found (length archives)]
                   @ warnings w archives
                   @ [Printf_saved ''./latest_releases.txt'',
                      Printf_processed (card (dom (resolution w archives)))],
                output_file = out, exit_status = 0\<rparr>)"
proof -
  let ?allFiles = "grouping w archives"
  let ?sv = "sorted_versions sort_Slice"
  have g: "?allFiles = append_files (inspected w archives) Map.empty"
    by (simp add: grouping_def range_archives_eq)
  have ra: "range_archives w archives Map.empty evs = (?allFiles, evs @ warnings w archives)" for evs
    by (simp add: g range_archives_eq)
  have "determineLatestReleases sort_Slice (range_allFiles_order w ?allFiles) ?allFiles =
      Some ((\<lambda>k. case ?allFiles k of
                   None \<Rightarrow> None
                 | Some vs \<Rightarrow> if vs = [] then None else Some (?sv vs ! (length vs - 1))),
            (\<lambda>k. map_option ?sv (?allFiles k)))"
    using sorts sorts_versions_last(1)
    by (intro determineLatestReleases_result order1) blast
  moreover have "(\<lambda>k. case ?allFiles k of
                   None \<Rightarrow> None
                 | Some vs \<Rightarrow> if vs = [] then None else Some (?sv vs ! (length vs - 1)))
      = resolution w archives"
    using grouping_not_empty [of w archives]
    by (auto simp: resolution_def fun_eq_iff split: option.splits)
  ultimately have dlr: "determineLatestReleases sort_Slice (range_allFiles_order w ?allFiles) ?allFiles =
      Some (resolution w archives, (\<lambda>k. map_option ?sv (?allFiles k)))"
    by simp
  show ?thesis
    using ne by (simp add: main_def found ra dlr split: option.splits prod.splits)
qed

lemma dom_resolution: "dom (resolution w archives) = dom (grouping w archives)"
  by (auto simp: resolution_def dom_def split: option.splits)

text \<open>The run of the small world, piece by piece.\<close>

lemma demo_found:
  "findArchiveFiles demo_world ''X:/NETDBS'' = Inr demo_archives"
  "findArchiveFiles readonly_world ''X:/NETDBS'' = Inr demo_archives"
  by code_simp+

lemma demo_inspected:
  "inspected demo_world demo_archives =
     [version ''lib.dll'' 100 ''a.zip'' 100, version ''lib.dll'' 200 ''b.zip'' 200,
      version ''readme.txt'' 200 ''b.zip'' 10]"
  "inspected readonly_world demo_archives =
     [version ''lib.dll'' 100 ''a.zip'' 100, version ''lib.dll'' 200 ''b.zip'' 200,
      version ''readme.txt'' 200 ''b.zip'' 10]"
  by code_simp+

lemma demo_grouping:
  "grouping demo_world demo_archives = demo_grouping"
  "grouping readonly_world demo_archives = demo_grouping"
  by (auto simp: fun_eq_iff grouping_eq demo_inspected demo_grouping_def version_def)

lemma demo_sort_lib2:
  "sort_Slice versions_less [version ''lib.dll'' 100 ''a.zip'' 100, version ''lib.dll'' 200 ''b.zip'' 200]
     = Some [version ''lib.dll'' 100 ''a.zip'' 100, version ''lib.dll'' 200 ''b.zip'' 200]"
  by code_simp

lemma demo_grouping_sorts:
  "\<forall>k vs. demo_grouping k = Some vs \<longrightarrow> sorts_versions sort_Slice vs"
  by (auto simp: demo_grouping_def sorts_versions_def demo_sort_lib2 demo_sort_readme split: if_splits)
    (simp_all add: versions_less_def version_def)

lemma demo_order1:
  "distinct (range_allFiles_order demo_world demo_grouping)"
  "set (range_allFiles_order demo_world demo_grouping) = dom demo_grouping"
  "distinct (range_allFiles_order readonly_world demo_grouping)"
  "set (range_allFiles_order readonly_world demo_grouping) = dom demo_grouping"
  by (auto simp: demo_world_def readonly_world_def demo_grouping_def)

lemma demo_resolution:
  "resolution demo_world demo_archives ''lib.dll'' = Some (version ''lib.dll'' 200 ''b.zip'' 200)"
  "resolution demo_world demo_archives ''readme.txt'' = Some (version ''readme.txt'' 200 ''b.zip'' 10)"
  by (simp_all add: resolution_def demo_grouping demo_grouping_def sorted_versions_def
      demo_sort_lib2 demo_sort_readme)

lemma demo_main:
  "\<exists>n. main demo_world =
     Some \<lparr>events = [Printf_searching ''X:/NETDBS'', Printf_found 3,
                     Log_archive_error ''c.zip'' (Error ''zip: not a valid zip file''),
                     Printf_saved ''./latest_releases.txt'',
                     Printf_processed (card (dom (resolution demo_world demo_archives)))],
           output_file = Some \<lparr>written = header @ divider
                  @ the (line demo_world (version ''lib.dll'' 200 ''b.zip'' 200))
                  @ the (line demo_world (version ''readme.txt'' 200 ''b.zip'' 10)),
                  calls = n\<rparr>,
           exit_status = 0\<rparr>"
proof -
  have create: "os_Create demo_world ''./latest_releases.txt'' = None"
    and writes: "\<forall>n. WriteString_error demo_world n = None"
    and order2: "range_results_order demo_world (resolution demo_world demo_archives)
      = [''lib.dll'', ''readme.txt'']"
    by (simp_all add: demo_world_def)
  have w: "warnings demo_world demo_archives
      = [Log_archive_error ''c.zip'' (Error ''zip: not a valid zip file'')]"
    by code_simp
  obtain n where wr: "writeResultsToFile demo_world ''./latest_releases.txt'' (resolution demo_world demo_archives) =
     Some (Some \<lparr>written = header @ divider
                   @ concat (map (row demo_world (resolution demo_world demo_archives))
                       (range_results_order demo_world (resolution demo_world demo_archives))),
                 calls = n\<rparr>, None)"
    using writeResultsToFile_ok [OF create writes] by blast
  have "main demo_world = Some \<lparr>events = [Printf_searching ''X:/NETDBS'', Printf_found 3,
                     Log_archive_error ''c.zip'' (Error ''zip: not a valid zip file''),
                     Printf_saved ''./latest_releases.txt'',
                     Printf_processed (card (dom (resolution demo_world demo_archives)))],
           output_file = Some \<lparr>written = header @ divider
                  @ the (line demo_world (version ''lib.dll'' 200 ''b.zip'' 200))
                  @ the (line demo_world (version ''readme.txt'' 200 ''b.zip'' 10)),
                  calls = n\<rparr>,
           exit_status = 0\<rparr>"
    using main_eq [of demo_world demo_archives, OF demo_found(1)]
      demo_order1(1,2) demo_grouping_sorts
    by (simp add: demo_grouping wr w order2 row_def demo_resolution) (simp add: demo_archives_def)
  then show ?thesis by blast
qed


text \<open>
  The write loop in general: it returns no error exactly when none of the calls of
  \<open>WriteString\<close> that it makes fails, and then it has written the rows.
\<close>

lemma range_results_general:
  "\<exists>out' err. range_results w results keys out = Some (out', err)
     \<and> (err = None \<longleftrightarrow>
          (\<forall>n. calls out \<le> n \<and> n < calls out + length (filter (\<lambda>k. results k \<noteq> None) keys)
             \<longrightarrow> WriteString_error w n = None))
     \<and> (err = None \<longrightarrow> written out' = written out @ concat (map (row w results) keys))"
proof (induction keys arbitrary: out)
  case Nil
  show ?case by auto
next
  case (Cons k keys)
  show ?case
  proof (cases "results k")
    case None
    then show ?thesis using Cons.IH [of out] by (simp add: row_def)
  next
    case (Some rcd)
    obtain l where l: "line w rcd = Some l" using line_Some [of w rcd] by auto
    show ?thesis
    proof (cases "WriteString_error w (calls out)")
      case (Some e)
      have "range_results w results (k # keys) out = Some (out\<lparr>calls := calls out + 1\<rparr>, Some e)"
        using \<open>results k = Some rcd\<close> l Some by (simp add: WriteString_def)
      moreover have "\<not> (\<forall>n. calls out \<le> n
          \<and> n < calls out + length (filter (\<lambda>k. results k \<noteq> None) (k # keys))
             \<longrightarrow> WriteString_error w n = None)"
        using \<open>results k = Some rcd\<close> Some by (auto intro: exI [of _ "calls out"])
      ultimately show ?thesis by simp
    next
      case None
      let ?out' = "\<lparr>written = written out @ l, calls = calls out + 1\<rparr>"
      have step: "range_results w results (k # keys) out = range_results w results keys ?out'"
        using \<open>results k = Some rcd\<close> l None by (simp add: WriteString_def)
      from Cons.IH [of ?out'] obtain out' err where ih:
        "range_results w results keys ?out' = Some (out', err)"
        "err = None \<longleftrightarrow>
          (\<forall>n. calls ?out' \<le> n \<and> n < calls ?out' + length (filter (\<lambda>k. results k \<noteq> None) keys)
             \<longrightarrow> WriteString_error w n = None)"
        "err = None \<longrightarrow> written out' = written ?out' @ concat (map (row w results) keys)"
        by blast
      have "(\<forall>n. calls ?out' \<le> n \<and> n < calls ?out' + length (filter (\<lambda>k. results k \<noteq> None) keys)
             \<longrightarrow> WriteString_error w n = None)
          \<longleftrightarrow> (\<forall>n. calls out \<le> n
                \<and> n < calls out + length (filter (\<lambda>k. results k \<noteq> None) (k # keys))
             \<longrightarrow> WriteString_error w n = None)"
      proof
        assume a: "\<forall>n. calls ?out' \<le> n \<and> n < calls ?out' + length (filter (\<lambda>k. results k \<noteq> None) keys)
             \<longrightarrow> WriteString_error w n = None"
        show "\<forall>n. calls out \<le> n
                \<and> n < calls out + length (filter (\<lambda>k. results k \<noteq> None) (k # keys))
             \<longrightarrow> WriteString_error w n = None"
        proof (intro allI impI)
          fix n
          assume n: "calls out \<le> n
                \<and> n < calls out + length (filter (\<lambda>k. results k \<noteq> None) (k # keys))"
          show "WriteString_error w n = None"
          proof (cases "n = calls out")
            case True
            then show ?thesis using None by simp
          next
            case False
            then show ?thesis using a n \<open>results k = Some rcd\<close> by simp
          qed
        qed
      next
        assume a: "\<forall>n. calls out \<le> n
                \<and> n < calls out + length (filter (\<lambda>k. results k \<noteq> None) (k # keys))
             \<longrightarrow> WriteString_error w n = None"
        show "\<forall>n. calls ?out' \<le> n \<and> n < calls ?out' + length (filter (\<lambda>k. results k \<noteq> None) keys)
             \<longrightarrow> WriteString_error w n = None"
          using a \<open>results k = Some rcd\<close> by simp
      qed
      moreover have "written ?out' @ concat (map (row w results) keys)
          = written out @ concat (map (row w results) (k # keys))"
        using \<open>results k = Some rcd\<close> l by (simp add: row_def)
      ultimately show ?thesis using step ih by simp
    qed
  qed
qed

lemma writeResultsToFile_general:
  "\<exists>fl err. writeResultsToFile w filename results = Some (fl, err)
     \<and> (err = None \<longleftrightarrow>
          os_Create w filename = None
          \<and> (\<forall>n < 2 + length (filter (\<lambda>k. results k \<noteq> None) (range_results_order w results)).
                WriteString_error w n = None))
     \<and> (err = None \<longrightarrow>
          (\<exists>out. fl = Some out
             \<and> written out = header @ divider
                  @ concat (map (row w results) (range_results_order w results))))"
proof (cases "os_Create w filename")
  case (Some e)
  then show ?thesis by (simp add: writeResultsToFile_def)
next
  case None
  note create = None
  show ?thesis
  proof (cases "WriteString_error w 0")
    case (Some e)
    then have "writeResultsToFile w filename results
        = Some (Some \<lparr>written = [], calls = 1\<rparr>, Some e)"
      using create by (simp add: writeResultsToFile_def WriteString_def)
    moreover have "\<not> (\<forall>n < 2 + length (filter (\<lambda>k. results k \<noteq> None) (range_results_order w results)).
                WriteString_error w n = None)"
      using Some by (auto intro: exI [of _ 0])
    ultimately show ?thesis by simp
  next
    case None
    note w0 = None
    show ?thesis
    proof (cases "WriteString_error w 1")
      case (Some e)
      then have "writeResultsToFile w filename results
          = Some (Some \<lparr>written = header, calls = 2\<rparr>, Some e)"
        using create w0 by (simp add: writeResultsToFile_def WriteString_def)
      moreover have "\<not> (\<forall>n < 2 + length (filter (\<lambda>k. results k \<noteq> None) (range_results_order w results)).
                WriteString_error w n = None)"
        using Some by (auto intro: exI [of _ 1])
      ultimately show ?thesis by simp
    next
      case None
      note w1 = None
      let ?out = "\<lparr>written = header @ divider, calls = 2\<rparr>"
      let ?keys = "range_results_order w results"
      have eq: "writeResultsToFile w filename results
          = map_option (\<lambda>(file3, err). (Some file3, err)) (range_results w results ?keys ?out)"
        using create w0 w1 by (simp add: writeResultsToFile_def WriteString_def numeral_2_eq_2)
      from range_results_general [of w results ?keys ?out] obtain out' err where r:
        "range_results w results ?keys ?out = Some (out', err)"
        "err = None \<longleftrightarrow>
          (\<forall>n. calls ?out \<le> n \<and> n < calls ?out + length (filter (\<lambda>k. results k \<noteq> None) ?keys)
             \<longrightarrow> WriteString_error w n = None)"
        "err = None \<longrightarrow> written out' = written ?out @ concat (map (row w results) ?keys)"
        by blast
      have "(\<forall>n. calls ?out \<le> n \<and> n < calls ?out + length (filter (\<lambda>k. results k \<noteq> None) ?keys)
             \<longrightarrow> WriteString_error w n = None)
          \<longleftrightarrow> (\<forall>n < 2 + length (filter (\<lambda>k. results k \<noteq> None) ?keys). WriteString_error w n = None)"
      proof
        assume a: "\<forall>n. calls ?out \<le> n \<and> n < calls ?out + length (filter (\<lambda>k. results k \<noteq> None) ?keys)
             \<longrightarrow> WriteString_error w n = None"
        show "\<forall>n < 2 + length (filter (\<lambda>k. results k \<noteq> None) ?keys). WriteString_error w n = None"
        proof (intro allI impI)
          fix n assume n: "n < 2 + length (filter (\<lambda>k. results k \<noteq> None) ?keys)"
          consider "n = 0" | "n = 1" | "2 \<le> n" by arith
          then show "WriteString_error w n = None"
          proof cases
            case 1 then show ?thesis using w0 by simp
          next
            case 2 then show ?thesis using w1 by simp
          next
            case 3 then show ?thesis using a n by simp
          qed
        qed
      next
        assume "\<forall>n < 2 + length (filter (\<lambda>k. results k \<noteq> None) ?keys). WriteString_error w n = None"
        then show "\<forall>n. calls ?out \<le> n \<and> n < calls ?out + length (filter (\<lambda>k. results k \<noteq> None) ?keys)
             \<longrightarrow> WriteString_error w n = None"
          by simp
      qed
      then show ?thesis using eq r create by simp
    qed
  qed
qed

text \<open>Every inspected record comes from an archive that could be inspected.\<close>

lemma inspected_memD:
  assumes "v \<in> set (inspected w archives)"
  shows "\<exists>p files. p \<in> set archives \<and> extractFileInfoFromArchive w p = Inr files \<and> v \<in> set files"
proof -
  from assms obtain p where p: "p \<in> set archives"
    "v \<in> set (case extractFileInfoFromArchive w p of Inl err \<Rightarrow> [] | Inr files \<Rightarrow> files)"
    by (auto simp: inspected_def)
  then show ?thesis by (cases "extractFileInfoFromArchive w p") auto
qed

text \<open>A slice of the grouping map holds the inspected records of its name, and is not empty.\<close>

lemma grouping_Some:
  assumes "grouping w archives k = Some vs"
  shows "vs = filter (\<lambda>f. Name f = k) (inspected w archives)" and "vs \<noteq> []"
  using assms by (simp_all add: grouping_eq split: if_splits)

text \<open>
  The resolver on the grouping map of a run: under the promise of \<open>sort.Slice\<close> it
  returns the resolution map, and leaves every slice sorted.
\<close>

lemma determineLatestReleases_grouping:
  assumes order1: "distinct (range_allFiles_order w (grouping w archives))"
      "set (range_allFiles_order w (grouping w archives)) = dom (grouping w archives)"
    and sorts: "\<forall>k vs. grouping w archives k = Some vs \<longrightarrow> sorts_versions sort_Slice vs"
  shows "determineLatestReleases sort_Slice (range_allFiles_order w (grouping w archives))
      (grouping w archives) =
      Some (resolution w archives,
            (\<lambda>k. map_option (sorted_versions sort_Slice) (grouping w archives k)))"
proof -
  let ?allFiles = "grouping w archives"
  let ?sv = "sorted_versions sort_Slice"
  have "determineLatestReleases sort_Slice (range_allFiles_order w ?allFiles) ?allFiles =
      Some ((\<lambda>k. case ?allFiles k of
                   None \<Rightarrow> None
                 | Some vs \<Rightarrow> if vs = [] then None else Some (?sv vs ! (length vs - 1))),
            (\<lambda>k. map_option ?sv (?allFiles k)))"
    using sorts sorts_versions_last(1)
    by (intro determineLatestReleases_result order1) blast
  moreover have "(\<lambda>k. case ?allFiles k of
                   None \<Rightarrow> None
                 | Some vs \<Rightarrow> if vs = [] then None else Some (?sv vs ! (length vs - 1)))
      = resolution w archives"
    using grouping_not_empty [of w archives]
    by (auto simp: resolution_def fun_eq_iff split: option.splits)
  ultimately show ?thesis by simp
qed

text \<open>
  C9 as stated fails twice. In the small world \<open>c.zip\<close> is skipped and the run ends
  well, yet the record of \<open>a.zip\<close>, which was inspected, is not in the report: the one
  row for \<open>lib.dll\<close> is that of the newer \<open>b.zip\<close>. And when the output file cannot
  be created, the run ends with status 1 although archives were inspected.
\<close>

theorem main_report_counterexample:
  "extractFileInfoFromArchive demo_world ''a.zip'' = Inr [version ''lib.dll'' 100 ''a.zip'' 100]
   \<and> extractFileInfoFromArchive demo_world ''c.zip'' = Inl (Error ''zip: not a valid zip file'')
   \<and> map_option (\<lambda>r. (exit_status r, map_option written (output_file r))) (main demo_world)
       = Some (0, Some (header @ divider
                  @ the (line demo_world (version ''lib.dll'' 200 ''b.zip'' 200))
                  @ the (line demo_world (version ''readme.txt'' 200 ''b.zip'' 10))))
   \<and> line demo_world (version ''lib.dll'' 100 ''a.zip'' 100)
       \<noteq> line demo_world (version ''lib.dll'' 200 ''b.zip'' 200)
   \<and> extractFileInfoFromArchive readonly_world ''a.zip'' = Inr [version ''lib.dll'' 100 ''a.zip'' 100]
   \<and> map_option (\<lambda>r. (exit_status r, output_file r)) (main readonly_world) = Some (1, None)"
proof -
  have 1: "extractFileInfoFromArchive demo_world ''a.zip'' = Inr [version ''lib.dll'' 100 ''a.zip'' 100]"
    by code_simp
  have 2: "extractFileInfoFromArchive demo_world ''c.zip'' = Inl (Error ''zip: not a valid zip file'')"
    by code_simp
  have 3: "map_option (\<lambda>r. (exit_status r, map_option written (output_file r))) (main demo_world)
       = Some (0, Some (header @ divider
                  @ the (line demo_world (version ''lib.dll'' 200 ''b.zip'' 200))
                  @ the (line demo_world (version ''readme.txt'' 200 ''b.zip'' 10))))"
    using demo_main by auto
  have 4: "line demo_world (version ''lib.dll'' 100 ''a.zip'' 100)
       \<noteq> line demo_world (version ''lib.dll'' 200 ''b.zip'' 200)"
    by code_simp
  have 5: "extractFileInfoFromArchive readonly_world ''a.zip'' = Inr [version ''lib.dll'' 100 ''a.zip'' 100]"
    by code_simp
  have "writeResultsToFile readonly_world ''./latest_releases.txt'' (resolution readonly_world demo_archives)
      = Some (None, Some (Error ''access denied''))"
    by (simp add: writeResultsToFile_def readonly_world_def)
  then have 6: "map_option (\<lambda>r. (exit_status r, output_file r)) (main readonly_world) = Some (1, None)"
    using main_eq [of readonly_world demo_archives, OF demo_found(2)]
      demo_order1(3,4) demo_grouping_sorts
    by (simp add: demo_grouping) (simp add: demo_archives_def)
  from 1 2 3 4 5 6 show ?thesis by (intro conjI)
qed

text \<open>
  C9, amended: a run that finds archives logs a warning for each archive that cannot be
  inspected and goes on with the others. The grouping map holds the records of every
  archive that is inspected, and nothing else: each record of a slice has the name of
  the slice and comes from an inspected archive. If \<open>sort.Slice\<close> keeps its promise on
  the slices of that map, the resolver returns a map of the same names that gives, for
  each name, a record of its slice with the greatest modification time. The report has
  one row for each name of that map, each name once. If the output file can be created
  and every write succeeds, the run ends with status 0 and the report is the header, the
  divider and these rows, which show the records the resolver has chosen; otherwise the
  failure is fatal: it is logged and the run ends with status 1.
\<close>

theorem main_skips_failed_archives:
  assumes found: "findArchiveFiles w ''X:/NETDBS'' = Inr archives" and ne: "archives \<noteq> []"
    and order1: "distinct (range_allFiles_order w (grouping w archives))"
      "set (range_allFiles_order w (grouping w archives)) = dom (grouping w archives)"
    and sorts: "\<forall>k vs. grouping w archives k = Some vs \<longrightarrow> sorts_versions sort_Slice vs"
    and order2: "\<forall>m. dom m = dom (grouping w archives) \<longrightarrow>
      distinct (range_results_order w m) \<and> set (range_results_order w m) = dom m"
  shows "\<exists>r latest allFiles'.
           main w = Some r
           \<and> determineLatestReleases sort_Slice (range_allFiles_order w (grouping w archives))
                 (grouping w archives) = Some (latest, allFiles')
           \<and> (\<forall>p err. p \<in> set archives \<longrightarrow> extractFileInfoFromArchive w p = Inl err
                 \<longrightarrow> Log_archive_error p err \<in> set (events r))
           \<and> (\<forall>p files f. p \<in> set archives \<longrightarrow> extractFileInfoFromArchive w p = Inr files
                 \<longrightarrow> f \<in> set files
                 \<longrightarrow> (\<exists>vs. grouping w archives (Name f) = Some vs \<and> f \<in> set vs))
           \<and> (\<forall>k vs v. grouping w archives k = Some vs \<longrightarrow> v \<in> set vs
                 \<longrightarrow> Name v = k
                     \<and> (\<exists>p files. p \<in> set archives
                           \<and> extractFileInfoFromArchive w p = Inr files \<and> v \<in> set files))
           \<and> dom latest = dom (grouping w archives)
           \<and> (\<forall>k vs. grouping w archives k = Some vs
                 \<longrightarrow> (\<exists>v. latest k = Some v \<and> v \<in> set vs
                        \<and> (\<forall>f \<in> set vs. ModTime f \<le> ModTime v)))
           \<and> distinct (range_results_order w latest)
           \<and> set (range_results_order w latest) = dom latest
           \<and> (if os_Create w ''./latest_releases.txt'' = None
                  \<and> (\<forall>n < 2 + length (range_results_order w latest). WriteString_error w n = None)
               then exit_status r = 0
                  \<and> (\<exists>out. output_file r = Some out
                        \<and> written out = header @ divider
                             @ concat (map (\<lambda>k. the (line w (the (latest k))))
                                 (range_results_order w latest)))
               else exit_status r = 1 \<and> (\<exists>e. Fatal_write e \<in> set (events r)))"
proof -
  define latest where "latest = resolution w archives"
  define allFiles' where
    "allFiles' = (\<lambda>k. map_option (sorted_versions sort_Slice) (grouping w archives k))"
  define keys2 where "keys2 = range_results_order w latest"
  let ?sv = "sorted_versions sort_Slice"
  have dlr: "determineLatestReleases sort_Slice (range_allFiles_order w (grouping w archives))
      (grouping w archives) = Some (latest, allFiles')"
    unfolding latest_def allFiles'_def by (rule determineLatestReleases_grouping [OF order1 sorts])
  have dom: "dom latest = dom (grouping w archives)"
    by (simp add: latest_def dom_resolution)
  then have keys2: "distinct keys2" "set keys2 = dom latest"
    using order2 by (simp_all add: keys2_def)
  then have all_keys: "filter (\<lambda>k. latest k \<noteq> None) keys2 = keys2"
    by (auto simp: filter_id_conv)
  have rows: "map (row w latest) keys2 = map (\<lambda>k. the (line w (the (latest k)))) keys2"
  proof (rule map_cong [OF refl])
    fix k assume "k \<in> set keys2"
    then have "k \<in> dom latest" using keys2 by simp
    then obtain v where "latest k = Some v" by blast
    then show "row w latest k = the (line w (the (latest k)))" by (simp add: row_def)
  qed
  obtain fl err where wr: "writeResultsToFile w ''./latest_releases.txt'' latest = Some (fl, err)"
    and wr_ok: "err = None \<longleftrightarrow>
          os_Create w ''./latest_releases.txt'' = None
          \<and> (\<forall>n < 2 + length keys2. WriteString_error w n = None)"
    and wr_out: "err = None \<longrightarrow>
          (\<exists>out. fl = Some out
             \<and> written out = header @ divider @ concat (map (row w latest) keys2))"
    using writeResultsToFile_general [of w "''./latest_releases.txt''" latest]
    unfolding keys2_def [symmetric] all_keys by blast
  let ?evs = "[Printf_searching ''X:/NETDBS'', Printf_found (length archives)] @ warnings w archives"
  define r where "r = (case err of
      Some e \<Rightarrow> \<lparr>events = ?evs @ [Fatal_write e], output_file = fl, exit_status = 1\<rparr>
    | None \<Rightarrow> \<lparr>events = ?evs @ [Printf_saved ''./latest_releases.txt'',
                                   Printf_processed (card (dom latest))],
               output_file = fl, exit_status = 0\<rparr>)"
  have m: "main w = Some r"
    using wr by (simp add: main_eq [OF found ne order1 sorts] latest_def [symmetric] r_def
        split: option.splits)
  have warn: "\<forall>p err. p \<in> set archives \<longrightarrow> extractFileInfoFromArchive w p = Inl err
                 \<longrightarrow> Log_archive_error p err \<in> set (events r)"
    using warnings_mem by (simp add: r_def split: option.splits)
  have grp: "\<forall>p files f. p \<in> set archives \<longrightarrow> extractFileInfoFromArchive w p = Inr files
                 \<longrightarrow> f \<in> set files
                 \<longrightarrow> (\<exists>vs. grouping w archives (Name f) = Some vs \<and> f \<in> set vs)"
  proof (intro allI impI)
    fix p files f
    assume "p \<in> set archives" "extractFileInfoFromArchive w p = Inr files" "f \<in> set files"
    then have "f \<in> set (inspected w archives)" by (rule inspected_mem)
    then have mem: "f \<in> set (filter (\<lambda>x. Name x = Name f) (inspected w archives))" by simp
    then have "filter (\<lambda>x. Name x = Name f) (inspected w archives) \<noteq> []" by force
    then have "grouping w archives (Name f) = Some (filter (\<lambda>x. Name x = Name f) (inspected w archives))"
      by (simp add: grouping_eq)
    with mem show "\<exists>vs. grouping w archives (Name f) = Some vs \<and> f \<in> set vs" by blast
  qed
  have origin: "\<forall>k vs v. grouping w archives k = Some vs \<longrightarrow> v \<in> set vs
                 \<longrightarrow> Name v = k
                     \<and> (\<exists>p files. p \<in> set archives
                           \<and> extractFileInfoFromArchive w p = Inr files \<and> v \<in> set files)"
  proof (intro allI impI)
    fix k vs v
    assume g: "grouping w archives k = Some vs" and v: "v \<in> set vs"
    have "vs = filter (\<lambda>f. Name f = k) (inspected w archives)" using g by (rule grouping_Some(1))
    with v have "Name v = k" "v \<in> set (inspected w archives)" by simp_all
    then show "Name v = k
        \<and> (\<exists>p files. p \<in> set archives \<and> extractFileInfoFromArchive w p = Inr files \<and> v \<in> set files)"
      using inspected_memD by blast
  qed
  have newest: "\<forall>k vs. grouping w archives k = Some vs
                 \<longrightarrow> (\<exists>v. latest k = Some v \<and> v \<in> set vs
                        \<and> (\<forall>f \<in> set vs. ModTime f \<le> ModTime v))"
  proof (intro allI impI)
    fix k vs
    assume g: "grouping w archives k = Some vs"
    have nonempty: "vs \<noteq> []" using g by (rule grouping_Some(2))
    have sv: "sorts_versions sort_Slice vs" using sorts g by blast
    let ?v = "?sv vs ! (length vs - 1)"
    have "latest k = Some ?v" using g by (simp add: latest_def resolution_def)
    moreover have "?v \<in> set vs" using sv nonempty by (rule sorts_versions_last(2))
    moreover have "\<forall>f \<in> set vs. ModTime f \<le> ModTime ?v"
      using sv nonempty by (rule sorts_versions_last(3))
    ultimately show "\<exists>v. latest k = Some v \<and> v \<in> set vs \<and> (\<forall>f \<in> set vs. ModTime f \<le> ModTime v)"
      by blast
  qed
  have outcome: "if os_Create w ''./latest_releases.txt'' = None
                  \<and> (\<forall>n < 2 + length keys2. WriteString_error w n = None)
               then exit_status r = 0
                  \<and> (\<exists>out. output_file r = Some out
                        \<and> written out = header @ divider
                             @ concat (map (\<lambda>k. the (line w (the (latest k)))) keys2))
               else exit_status r = 1 \<and> (\<exists>e. Fatal_write e \<in> set (events r))"
  proof (cases err)
    case None
    then show ?thesis using wr_ok wr_out by (auto simp: r_def rows)
  next
    case (Some e)
    then show ?thesis using wr_ok by (auto simp: r_def)
  qed
  show ?thesis
    using m dlr warn grp origin dom newest keys2 outcome unfolding keys2_def by blast
qed

text \<open>
  C9, amended, on the small world: the run ends with status 0, the warning for \<open>c.zip\<close>
  is logged, the record of \<open>a.zip\<close> is in the grouping map, and the report has the row
  of the newer \<open>lib.dll\<close> and the row of \<open>readme.txt\<close>. When the output file cannot
  be created, the run logs the failure and ends with status 1.
\<close>

theorem main_skips_failed_archives_witness:
  "(\<exists>r. main demo_world = Some r \<and> exit_status r = 0
      \<and> Log_archive_error ''c.zip'' (Error ''zip: not a valid zip file'') \<in> set (events r)
      \<and> (\<exists>vs. grouping demo_world demo_archives ''lib.dll'' = Some vs
            \<and> version ''lib.dll'' 100 ''a.zip'' 100 \<in> set vs)
      \<and> map_option written (output_file r)
          = Some (header @ divider
                  @ the (line demo_world (version ''lib.dll'' 200 ''b.zip'' 200))
                  @ the (line demo_world (version ''readme.txt'' 200 ''b.zip'' 10))))
   \<and> (\<exists>r e. main readonly_world = Some r \<and> exit_status r = 1
          \<and> Fatal_write e \<in> set (events r))"
proof -
  have ne: "demo_archives \<noteq> []" by (simp add: demo_archives_def)
  have sorts: "\<forall>k vs. grouping demo_world demo_archives k = Some vs \<longrightarrow> sorts_versions sort_Slice vs"
    "\<forall>k vs. grouping readonly_world demo_archives k = Some vs \<longrightarrow> sorts_versions sort_Slice vs"
    using demo_grouping_sorts by (simp_all add: demo_grouping)
  have c: "''c.zip'' \<in> set demo_archives" and a: "''a.zip'' \<in> set demo_archives"
    by (simp_all add: demo_archives_def)
  have ec: "extractFileInfoFromArchive demo_world ''c.zip'' = Inl (Error ''zip: not a valid zip file'')"
    by code_simp
  have ea: "extractFileInfoFromArchive demo_world ''a.zip'' = Inr [version ''lib.dll'' 100 ''a.zip'' 100]"
    by code_simp
  have na: "Name (version ''lib.dll'' 100 ''a.zip'' 100) = ''lib.dll''" by (simp add: version_def)
  have first: "\<exists>r. main demo_world = Some r \<and> exit_status r = 0
      \<and> Log_archive_error ''c.zip'' (Error ''zip: not a valid zip file'') \<in> set (events r)
      \<and> (\<exists>vs. grouping demo_world demo_archives ''lib.dll'' = Some vs
            \<and> version ''lib.dll'' 100 ''a.zip'' 100 \<in> set vs)
      \<and> map_option written (output_file r)
          = Some (header @ divider
                  @ the (line demo_world (version ''lib.dll'' 200 ''b.zip'' 200))
                  @ the (line demo_world (version ''readme.txt'' 200 ''b.zip'' 10)))"
  proof -
    have order1: "distinct (range_allFiles_order demo_world (grouping demo_world demo_archives))"
      "set (range_allFiles_order demo_world (grouping demo_world demo_archives))
         = dom (grouping demo_world demo_archives)"
      using demo_order1(1,2) by (simp_all add: demo_grouping)
    have ro: "range_results_order demo_world m = [''lib.dll'', ''readme.txt'']" for m
      by (simp add: demo_world_def)
    have order2: "\<forall>m. dom m = dom (grouping demo_world demo_archives) \<longrightarrow>
        distinct (range_results_order demo_world m) \<and> set (range_results_order demo_world m) = dom m"
      unfolding demo_grouping ro by (auto simp: demo_grouping_def)
    have create: "os_Create demo_world ''./latest_releases.txt'' = None"
      and writes: "WriteString_error demo_world n = None" for n
      by (simp_all add: demo_world_def)
    from main_skips_failed_archives [OF demo_found(1) ne order1 sorts(1) order2]
    obtain r latest allFiles' where r: "main demo_world = Some r"
      and dlr: "determineLatestReleases sort_Slice
         (range_allFiles_order demo_world (grouping demo_world demo_archives))
         (grouping demo_world demo_archives) = Some (latest, allFiles')"
      and warn: "\<forall>p err. p \<in> set demo_archives \<longrightarrow> extractFileInfoFromArchive demo_world p = Inl err
                   \<longrightarrow> Log_archive_error p err \<in> set (events r)"
      and grp: "\<forall>p files f. p \<in> set demo_archives \<longrightarrow> extractFileInfoFromArchive demo_world p = Inr files
                   \<longrightarrow> f \<in> set files
                   \<longrightarrow> (\<exists>vs. grouping demo_world demo_archives (Name f) = Some vs \<and> f \<in> set vs)"
      and outcome: "if os_Create demo_world ''./latest_releases.txt'' = None
                  \<and> (\<forall>n < 2 + length (range_results_order demo_world latest).
                        WriteString_error demo_world n = None)
               then exit_status r = 0
                  \<and> (\<exists>out. output_file r = Some out
                        \<and> written out = header @ divider
                             @ concat (map (\<lambda>k. the (line demo_world (the (latest k))))
                                 (range_results_order demo_world latest)))
               else exit_status r = 1 \<and> (\<exists>e. Fatal_write e \<in> set (events r))"
      by (elim exE conjE) (rule that)
    have latest: "latest = resolution demo_world demo_archives"
      using dlr determineLatestReleases_grouping [OF order1 sorts(1)] by simp
    from outcome have ok: "exit_status r = 0"
      and out: "\<exists>out. output_file r = Some out
                        \<and> written out = header @ divider
                             @ concat (map (\<lambda>k. the (line demo_world (the (latest k))))
                                 (range_results_order demo_world latest))"
      by (simp_all add: create writes)
    from out have written: "map_option written (output_file r)
          = Some (header @ divider
                  @ the (line demo_world (version ''lib.dll'' 200 ''b.zip'' 200))
                  @ the (line demo_world (version ''readme.txt'' 200 ''b.zip'' 10)))"
      by (auto simp: ro latest demo_resolution)
    from warn c ec have "Log_archive_error ''c.zip'' (Error ''zip: not a valid zip file'') \<in> set (events r)"
      by blast
    moreover from grp a ea have "\<exists>vs. grouping demo_world demo_archives
          (Name (version ''lib.dll'' 100 ''a.zip'' 100)) = Some vs
        \<and> version ''lib.dll'' 100 ''a.zip'' 100 \<in> set vs"
      by (meson list.set_intros(1))
    ultimately show ?thesis using r ok written unfolding na by blast
  qed
  have second: "\<exists>r e. main readonly_world = Some r \<and> exit_status r = 1
          \<and> Fatal_write e \<in> set (events r)"
  proof -
    have order1: "distinct (range_allFiles_order readonly_world (grouping readonly_world demo_archives))"
      "set (range_allFiles_order readonly_world (grouping readonly_world demo_archives))
         = dom (grouping readonly_world demo_archives)"
      using demo_order1(3,4) by (simp_all add: demo_grouping)
    have ro: "range_results_order readonly_world m = [''lib.dll'', ''readme.txt'']" for m
      by (simp add: readonly_world_def demo_world_def)
    have order2: "\<forall>m. dom m = dom (grouping readonly_world demo_archives) \<longrightarrow>
        distinct (range_results_order readonly_world m)
        \<and> set (range_results_order readonly_world m) = dom m"
      unfolding demo_grouping ro by (auto simp: demo_grouping_def)
    have create: "os_Create readonly_world ''./latest_releases.txt'' \<noteq> None"
      by (simp add: readonly_world_def)
    from main_skips_failed_archives [OF demo_found(2) ne order1 sorts(2) order2]
    obtain r latest where r: "main readonly_world = Some r"
      and outcome: "if os_Create readonly_world ''./latest_releases.txt'' = None
                  \<and> (\<forall>n < 2 + length (range_results_order readonly_world latest).
                        WriteString_error readonly_world n = None)
               then exit_status r = 0
                  \<and> (\<exists>out. output_file r = Some out
                        \<and> written out = header @ divider
                             @ concat (map (\<lambda>k. the (line readonly_world (the (latest k))))
                                 (range_results_order readonly_world latest)))
               else exit_status r = 1 \<and> (\<exists>e. Fatal_write e \<in> set (events r))"
      by (elim exE conjE) (rule that)
    from outcome create have "exit_status r = 1 \<and> (\<exists>e. Fatal_write e \<in> set (events r))"
      by simp
    with r show ?thesis by blast
  qed
  from first second show ?thesis by (rule conjI)
qed

end
